theory Spec2Isabelle
  imports Main "HOL-Library.Word"
begin

unbundle bit_operations_syntax

text \<open>
  A model of the event-stream part of the Xenobot shim
  (\<open>crates/web/frontend/public/shim.js\<close>): \<open>snakeToCamel\<close>, \<open>toCamelDeep\<close>,
  \<open>httpRequest\<close>, \<open>consumeSseResponse\<close> with its closure \<open>emitBlock\<close>, \<open>postSse\<close>,
  \<open>llmApi.chatStream\<close>, \<open>agentApi.runStream\<close> and \<open>agentApi.abort\<close>. Asynchronous
  functions are functions of what the platform delivers to them (the outcome of
  \<open>fetch\<close>, the results of the reads); a rejected promise and a thrown error are the
  value \<open>Inl\<close>. For \<open>runStream\<close>, what the platform delivers depends on the signal of
  the request's \<open>AbortController\<close> and on what other code does to the shared state while
  the request waits.
\<close>

section \<open>JavaScript strings\<close>

text \<open>
  A JavaScript string is a sequence of UTF-16 code units; a chunk read from a response
  body is a sequence of bytes. \<open>js\<close> writes an ASCII literal as a JavaScript string.
\<close>

type_synonym jstr = "16 word list"
type_synonym byte = "8 word"

definition js :: "string \<Rightarrow> jstr" where
  "js s = map of_char s"

definition LF :: "16 word" where
  "LF = 0x0A"

definition CR :: "16 word" where
  "CR = 0x0D"

text \<open>
  \<open>String.prototype.trim\<close> and \<open>trimStart\<close> remove the code units that ECMAScript
  calls WhiteSpace (TAB, VT, FF, SP, NBSP, ZWNBSP and the space separators) and
  LineTerminator (LF, CR, LS, PS).
\<close>

definition is_ws :: "16 word \<Rightarrow> bool" where
  "is_ws c \<longleftrightarrow>
     c = 0x09 \<or> c = 0x0A \<or> c = 0x0B \<or> c = 0x0C \<or> c = 0x0D \<or> c = 0x20 \<or> c = 0xA0 \<or>
     c = 0x1680 \<or> (0x2000 \<le> c \<and> c \<le> 0x200A) \<or> c = 0x2028 \<or> c = 0x2029 \<or>
     c = 0x202F \<or> c = 0x205F \<or> c = 0x3000 \<or> c = 0xFEFF"

definition trimStart :: "jstr \<Rightarrow> jstr" where
  "trimStart s = dropWhile is_ws s"

definition trimEnd :: "jstr \<Rightarrow> jstr" where
  "trimEnd s = rev (dropWhile is_ws (rev s))"

definition trim :: "jstr \<Rightarrow> jstr" where
  "trim s = trimEnd (trimStart s)"

text \<open>\<open>s.startsWith(p)\<close>.\<close>

definition startsWith :: "jstr \<Rightarrow> jstr \<Rightarrow> bool" where
  "startsWith p s \<longleftrightarrow> take (length p) s = p"

text \<open>\<open>s.split('\n')\<close>: the pieces between line feeds; the empty string gives one empty piece.\<close>

fun split_lf :: "jstr \<Rightarrow> jstr list" where
  "split_lf [] = [[]]"
| "split_lf (c # cs) =
     (if c = LF then [] # split_lf cs
      else (case split_lf cs of [] \<Rightarrow> [[c]] | l # ls \<Rightarrow> (c # l) # ls))"

text \<open>\<open>xs.join(sep)\<close> on an array of strings.\<close>

fun join :: "jstr \<Rightarrow> jstr list \<Rightarrow> jstr" where
  "join sep [] = []"
| "join sep [l] = l"
| "join sep (l # ls) = l @ sep @ join sep ls"

text \<open>\<open>s.replace(/\r\n/g, '\n')\<close>: every CR LF pair, scanned from the left, becomes LF.\<close>

fun replace_crlf :: "jstr \<Rightarrow> jstr" where
  "replace_crlf (c # d # cs) =
     (if c = CR \<and> d = LF then LF # replace_crlf cs else c # replace_crlf (d # cs))"
| "replace_crlf cs = cs"

text \<open>\<open>s.indexOf('\n\n')\<close>, with \<open>None\<close> for \<open>-1\<close>.\<close>

fun indexOf_lflf :: "jstr \<Rightarrow> nat option" where
  "indexOf_lflf (c # d # cs) =
     (if c = LF \<and> d = LF then Some 0 else map_option Suc (indexOf_lflf (d # cs)))"
| "indexOf_lflf cs = None"

text \<open>The decimal digits of a number, as a template literal prints it.\<close>

fun decimal :: "nat \<Rightarrow> jstr" where
  "decimal n = (if n < 10 then [of_nat (48 + n)] else decimal (n div 10) @ [of_nat (48 + n mod 10)])"

declare decimal.simps [simp del]

section \<open>The platform's streaming UTF-8 decoder\<close>

text \<open>
  \<open>new TextDecoder()\<close> is the UTF-8 decoder of the Encoding standard. Its handler takes
  one byte at a time and keeps its state between calls of \<open>decode(value, {stream: true})\<close>;
  a malformed sequence gives U+FFFD, and a byte order mark at the very start is dropped.
  \<open>decode()\<close> without arguments ends the stream: an unfinished sequence gives U+FFFD.
\<close>

record utf8_decoder =
  code_point :: nat
  bytes_seen :: nat
  bytes_needed :: nat
  lower_boundary :: nat
  upper_boundary :: nat
  bom_seen :: bool

definition new_decoder :: utf8_decoder where
  "new_decoder = \<lparr>code_point = 0, bytes_seen = 0, bytes_needed = 0,
     lower_boundary = 0x80, upper_boundary = 0xBF, bom_seen = False\<rparr>"

definition reset_sequence :: "utf8_decoder \<Rightarrow> utf8_decoder" where
  "reset_sequence d = d\<lparr>code_point := 0, bytes_seen := 0, bytes_needed := 0,
     lower_boundary := 0x80, upper_boundary := 0xBF\<rparr>"

text \<open>A byte read while no sequence is open.\<close>

definition utf8_lead :: "utf8_decoder \<Rightarrow> nat \<Rightarrow> utf8_decoder \<times> nat list" where
  "utf8_lead d b =
     (if b \<le> 0x7F then (d, [b])
      else if 0xC2 \<le> b \<and> b \<le> 0xDF then (d\<lparr>code_point := b mod 32, bytes_needed := 1\<rparr>, [])
      else if 0xE0 \<le> b \<and> b \<le> 0xEF then
        (d\<lparr>code_point := b mod 16, bytes_needed := 2,
           lower_boundary := (if b = 0xE0 then 0xA0 else lower_boundary d),
           upper_boundary := (if b = 0xED then 0x9F else upper_boundary d)\<rparr>, [])
      else if 0xF0 \<le> b \<and> b \<le> 0xF4 then
        (d\<lparr>code_point := b mod 8, bytes_needed := 3,
           lower_boundary := (if b = 0xF0 then 0x90 else lower_boundary d),
           upper_boundary := (if b = 0xF4 then 0x8F else upper_boundary d)\<rparr>, [])
      else (d, [0xFFFD]))"

definition utf8_handler :: "utf8_decoder \<Rightarrow> nat \<Rightarrow> utf8_decoder \<times> nat list" where
  "utf8_handler d b =
     (if bytes_needed d = 0 then utf8_lead d b
      else if b < lower_boundary d \<or> upper_boundary d < b then
        (case utf8_lead (reset_sequence d) b of (d', out) \<Rightarrow> (d', 0xFFFD # out))
      else
        (let d1 = d\<lparr>code_point := code_point d * 64 + b mod 64, bytes_seen := bytes_seen d + 1,
                     lower_boundary := 0x80, upper_boundary := 0xBF\<rparr>
         in if bytes_seen d1 \<noteq> bytes_needed d1 then (d1, [])
            else (reset_sequence d1, [code_point d1])))"

text \<open>A code point as UTF-16 code units.\<close>

definition utf16 :: "nat \<Rightarrow> jstr" where
  "utf16 cp =
     (if cp < 0x10000 then [of_nat cp]
      else [of_nat (0xD800 + (cp - 0x10000) div 0x400), of_nat (0xDC00 + (cp - 0x10000) mod 0x400)])"

text \<open>Serialising the decoded code points: the first one is dropped when it is U+FEFF.\<close>

fun serialize :: "bool \<Rightarrow> nat list \<Rightarrow> bool \<times> jstr" where
  "serialize seen [] = (seen, [])"
| "serialize seen (cp # cps) =
     (if \<not> seen \<and> cp = 0xFEFF then serialize True cps
      else (case serialize True cps of (seen', out) \<Rightarrow> (seen', utf16 cp @ out)))"

text \<open>\<open>decoder.decode(value, {stream: true})\<close>.\<close>

fun decode_stream :: "utf8_decoder \<Rightarrow> byte list \<Rightarrow> utf8_decoder \<times> jstr" where
  "decode_stream d [] = (d, [])"
| "decode_stream d (b # bs) =
     (case utf8_handler d (unat b) of (d1, cps) \<Rightarrow>
        (case serialize (bom_seen d1) cps of (seen, out) \<Rightarrow>
           (case decode_stream (d1\<lparr>bom_seen := seen\<rparr>) bs of (d2, rest) \<Rightarrow> (d2, out @ rest))))"

text \<open>\<open>decoder.decode()\<close>, called once after the last read.\<close>

definition decode_flush :: "utf8_decoder \<Rightarrow> jstr" where
  "decode_flush d = (if bytes_needed d \<noteq> 0 then snd (serialize (bom_seen d) [0xFFFD]) else [])"

section \<open>Decoded values\<close>

text \<open>
  What \<open>JSON.parse\<close> returns. \<open>'n\<close> stands for the platform's numbers. An object is the
  list of its own properties in the order \<open>Object.entries\<close> lists them.
\<close>

datatype 'n json =
    JNull
  | JBool bool
  | JNum 'n
  | JStr jstr
  | JArr "'n json list"
  | JObj "(jstr \<times> 'n json) list"

text \<open>A thrown \<open>Error\<close>: its \<open>name\<close> and its \<open>message\<close>.\<close>

datatype js_error = JsError (err_name: jstr) (err_message: jstr)

text \<open>
  The platform functions the shim calls and that are not part of it: \<open>JSON.parse\<close>
  (\<open>Inl\<close> when it throws), the truthiness of a number and \<open>Number.prototype.toString\<close>;
  and the room on the engine's call stack where \<open>emitBlock\<close> calls \<open>toCamelDeep\<close>: the
  number of activations of \<open>toCamelDeep\<close>, one inside the other, that fit on it.
\<close>

record 'n platform =
  json_parse :: "jstr \<Rightarrow> js_error + 'n json"
  number_truthy :: "'n \<Rightarrow> bool"
  number_to_string :: "'n \<Rightarrow> jstr"
  stack_depth :: nat

subsection \<open>snakeToCamel and toCamelDeep\<close>

definition is_lower :: "16 word \<Rightarrow> bool" where
  "is_lower c \<longleftrightarrow> 0x61 \<le> c \<and> c \<le> 0x7A"

definition toUpperCase :: "16 word \<Rightarrow> 16 word" where
  "toUpperCase c = (if is_lower c then c - 0x20 else c)"

text \<open>\<open>key.replace(/_([a-z])/g, (_, c) => c.toUpperCase())\<close>.\<close>

fun snakeToCamel :: "jstr \<Rightarrow> jstr" where
  "snakeToCamel (u # c # cs) =
     (if u = 0x5F \<and> is_lower c then toUpperCase c # snakeToCamel cs
      else u # snakeToCamel (c # cs))"
| "snakeToCamel cs = cs"

text \<open>\<open>out[k] = v\<close> on an object: an existing property keeps its place and takes the new value.\<close>

fun obj_set :: "jstr \<Rightarrow> 'v \<Rightarrow> (jstr \<times> 'v) list \<Rightarrow> (jstr \<times> 'v) list" where
  "obj_set k v [] = [(k, v)]"
| "obj_set k v ((k', v') # kvs) = (if k' = k then (k, v) # kvs else (k', v') # obj_set k v kvs)"

text \<open>The assignments of a \<open>forEach\<close> over entries, starting from \<open>out\<close>.\<close>

fun assign_entries :: "(jstr \<times> 'v) list \<Rightarrow> (jstr \<times> 'v) list \<Rightarrow> (jstr \<times> 'v) list" where
  "assign_entries out [] = out"
| "assign_entries out ((k, v) # kvs) = assign_entries (obj_set k v out) kvs"

text \<open>
  \<open>toCamelDeep\<close> calls itself once for every level of an array or object, from the
  callbacks of \<open>map\<close> and \<open>forEach\<close>, and catches nothing. Its first argument here is the
  room left on the call stack, counted in activations of \<open>toCamelDeep\<close>: an activation
  that finds no room throws the engine's \<open>RangeError\<close>, which leaves every activation
  around it. \<open>toCamelDeep_items\<close> is the \<open>value.map\<close> over the elements of an array,
  \<open>toCamelDeep_entries\<close> the \<open>forEach\<close> over the entries of an object, which assigns
  to \<open>out\<close>.
\<close>

definition range_error :: js_error where
  "range_error = JsError (js ''RangeError'') (js ''Maximum call stack size exceeded'')"

fun toCamelDeep :: "nat \<Rightarrow> 'n json \<Rightarrow> js_error + 'n json"
and toCamelDeep_items :: "nat \<Rightarrow> 'n json list \<Rightarrow> js_error + 'n json list"
and toCamelDeep_entries ::
  "nat \<Rightarrow> (jstr \<times> 'n json) list \<Rightarrow> (jstr \<times> 'n json) list \<Rightarrow> js_error + (jstr \<times> 'n json) list" where
  "toCamelDeep 0 v = Inl range_error"
| "toCamelDeep (Suc room) JNull = Inr JNull"
| "toCamelDeep (Suc room) (JBool b) = Inr (JBool b)"
| "toCamelDeep (Suc room) (JNum n) = Inr (JNum n)"
| "toCamelDeep (Suc room) (JStr s) = Inr (JStr s)"
| "toCamelDeep (Suc room) (JArr xs) =
     (case toCamelDeep_items room xs of Inl e \<Rightarrow> Inl e | Inr ys \<Rightarrow> Inr (JArr ys))"
| "toCamelDeep (Suc room) (JObj kvs) =
     (case toCamelDeep_entries room kvs [] of Inl e \<Rightarrow> Inl e | Inr out \<Rightarrow> Inr (JObj out))"
| "toCamelDeep_items room [] = Inr []"
| "toCamelDeep_items room (x # xs) =
     (case toCamelDeep room x of
        Inl e \<Rightarrow> Inl e
      | Inr y \<Rightarrow> (case toCamelDeep_items room xs of Inl e \<Rightarrow> Inl e | Inr ys \<Rightarrow> Inr (y # ys)))"
| "toCamelDeep_entries room [] out = Inr out"
| "toCamelDeep_entries room ((k, v) # kvs) out =
     (case toCamelDeep room v of
        Inl e \<Rightarrow> Inl e
      | Inr v' \<Rightarrow> toCamelDeep_entries room kvs (obj_set (snakeToCamel k) v' out))"

section \<open>consumeSseResponse\<close>

text \<open>
  What \<open>fetch\<close> resolves to. \<open>body\<close> is \<open>None\<close> when the response has no body or the
  body has no \<open>getReader\<close>; otherwise it lists what the successive \<open>reader.read()\<close>
  calls give: a chunk of bytes, or a rejection; after the last entry the reader reports
  \<open>done\<close>. \<open>json_result\<close> is what \<open>response.json()\<close> gives.
\<close>

datatype read_result = ReadChunk "byte list" | ReadThrows js_error

record 'n response =
  ok :: bool
  status :: nat
  statusText :: jstr
  body :: "read_result list option"
  json_result :: "js_error + 'n json"

text \<open>
  A callback: it may change the state of its owner (\<open>'s\<close>) and may throw, in which case
  the state is the one reached when it threw; it leaves the chunk it is given as it is.
  \<open>None\<close> stands for an \<open>onChunk\<close> that is not a function.
\<close>

type_synonym ('n, 's) callback = "'n json \<Rightarrow> 's \<Rightarrow> js_error option \<times> 's"

definition http_error :: "'n response \<Rightarrow> js_error" where
  "http_error response =
     JsError (js ''Error'') (js ''HTTP '' @ decimal (status response) @ js '': '' @ statusText response)"

text \<open>The payload \<open>dataText\<close> that \<open>emitBlock\<close> builds from the lines of a block.\<close>

definition dataText_of :: "jstr \<Rightarrow> jstr" where
  "dataText_of block =
     join [LF] (map (\<lambda>line. trimStart (drop 5 line))
                    (filter (\<lambda>line. startsWith (js ''data:'') line) (split_lf block)))"

text \<open>
  The closure \<open>emitBlock\<close>. It appends to the local array \<open>chunks\<close> and calls
  \<open>onChunk\<close>; whatever \<open>JSON.parse\<close> throws and whatever \<open>onChunk\<close> throws are
  caught inside it (and logged, which is not modelled). The call of \<open>toCamelDeep\<close> stands
  between the two \<open>try\<close> statements, so what it throws leaves \<open>emitBlock\<close>, before
  anything is appended or delivered.
\<close>

definition emitBlock ::
  "'n platform \<Rightarrow> ('n, 's) callback option \<Rightarrow> jstr \<Rightarrow> 'n json list \<Rightarrow> 's \<Rightarrow>
     (js_error + 'n json list) \<times> 's" where
  "emitBlock P onChunk block chunks s =
     (if block = [] then (Inr chunks, s)
      else
        let dataText = dataText_of block
        in if dataText = [] then (Inr chunks, s)
           else
             let parsed = (case json_parse P dataText of
                             Inr v \<Rightarrow> v
                           | Inl _ \<Rightarrow> JObj [(js ''content'', JStr dataText)])
             in (case toCamelDeep (stack_depth P) parsed of
                   Inl e \<Rightarrow> (Inl e, s)
                 | Inr normalized \<Rightarrow>
                     (case onChunk of
                        None \<Rightarrow> (Inr (chunks @ [normalized]), s)
                      | Some f \<Rightarrow>
                          (case f normalized s of
                             (None, s') \<Rightarrow> (Inr (chunks @ [normalized]), s')
                           | (Some err, s') \<Rightarrow> (Inr (chunks @ [normalized]), s')))))"

text \<open>The inner \<open>while ((splitIndex = buffer.indexOf('\n\n')) !== -1)\<close> loop.\<close>

function frame_loop ::
  "'n platform \<Rightarrow> ('n, 's) callback option \<Rightarrow> jstr \<Rightarrow> 'n json list \<Rightarrow> 's \<Rightarrow>
     (js_error + jstr \<times> 'n json list) \<times> 's" where
  "frame_loop P onChunk buffer chunks s =
     (case indexOf_lflf buffer of
        None \<Rightarrow> (Inr (buffer, chunks), s)
      | Some splitIndex \<Rightarrow>
          (case emitBlock P onChunk (trim (take splitIndex buffer)) chunks s of
             (Inl e, s') \<Rightarrow> (Inl e, s')
           | (Inr chunks', s') \<Rightarrow>
               frame_loop P onChunk (drop (splitIndex + 2) buffer) chunks' s'))"
  by pat_completeness auto
termination
  by (relation "measure (\<lambda>(P, onChunk, buffer, chunks, s). length buffer)")
     (auto elim: indexOf_lflf.elims)

declare frame_loop.simps [simp del]

text \<open>The outer \<open>while (true)\<close> loop over \<open>reader.read()\<close>.\<close>

fun read_loop ::
  "'n platform \<Rightarrow> ('n, 's) callback option \<Rightarrow> read_result list \<Rightarrow>
     utf8_decoder \<Rightarrow> jstr \<Rightarrow> 'n json list \<Rightarrow> 's \<Rightarrow>
     (js_error + utf8_decoder \<times> jstr \<times> 'n json list) \<times> 's" where
  "read_loop P onChunk [] decoder buffer chunks s = (Inr (decoder, buffer, chunks), s)"
| "read_loop P onChunk (ReadThrows e # reads) decoder buffer chunks s = (Inl e, s)"
| "read_loop P onChunk (ReadChunk v # reads) decoder buffer chunks s =
     (case decode_stream decoder v of (decoder', decoded) \<Rightarrow>
        (case frame_loop P onChunk (buffer @ replace_crlf decoded) chunks s of
           (Inl e, s') \<Rightarrow> (Inl e, s')
         | (Inr (buffer', chunks'), s') \<Rightarrow> read_loop P onChunk reads decoder' buffer' chunks' s'))"

definition consumeSseResponse ::
  "'n platform \<Rightarrow> 'n response \<Rightarrow> ('n, 's) callback option \<Rightarrow> 's \<Rightarrow> (js_error + 'n json list) \<times> 's" where
  "consumeSseResponse P response onChunk s =
     (if \<not> ok response then (Inl (http_error response), s)
      else
        (case body response of
           None \<Rightarrow> (Inr [], s)
         | Some reads \<Rightarrow>
             (case read_loop P onChunk reads new_decoder [] [] s of
                (Inl e, s') \<Rightarrow> (Inl e, s')
              | (Inr (decoder, buffer, chunks), s') \<Rightarrow>
                  emitBlock P onChunk (trim (buffer @ replace_crlf (decode_flush decoder))) chunks s')))"

text \<open>
  \<open>postSse\<close>: sending the request either rejects (the body cannot be serialised, the
  network fails, or the signal is aborted, which gives an \<open>AbortError\<close>) or resolves to
  a response. \<open>fetched\<close> is what the \<open>fetch\<close> with the \<open>signal\<close> of the caller gives, the
  reads of the body included; how it comes from the signal is \<open>fetch_signal\<close> below.
\<close>

definition postSse ::
  "'n platform \<Rightarrow> js_error + 'n response \<Rightarrow> ('n, 's) callback option \<Rightarrow> 's \<Rightarrow>
     (js_error + 'n json list) \<times> 's" where
  "postSse P fetched onChunk s =
     (case fetched of
        Inl e \<Rightarrow> (Inl e, s)
      | Inr response \<Rightarrow> consumeSseResponse P response onChunk s)"

section \<open>Reading a decoded value\<close>

text \<open>
  \<open>chunk.type\<close>, \<open>chunk.content\<close>, \<open>chunk.toolName\<close> and \<open>chunk.usage\<close> on a value
  other than \<open>null\<close>: an object gives its own property, anything else \<open>undefined\<close>
  (\<open>None\<close>). On \<open>null\<close> the access throws a \<open>TypeError\<close>, whose message depends on
  the engine.
\<close>

definition null_type_error :: js_error where
  "null_type_error = JsError (js ''TypeError'') (js ''Cannot read properties of null'')"

definition get_prop :: "'n json \<Rightarrow> jstr \<Rightarrow> 'n json option" where
  "get_prop v k = (case v of JObj kvs \<Rightarrow> map_of kvs k | _ \<Rightarrow> None)"

fun truthy :: "'n platform \<Rightarrow> 'n json \<Rightarrow> bool" where
  "truthy P JNull = False"
| "truthy P (JBool b) = b"
| "truthy P (JNum n) = number_truthy P n"
| "truthy P (JStr s) = (s \<noteq> [])"
| "truthy P (JArr xs) = True"
| "truthy P (JObj kvs) = True"

text \<open>\<open>chunk.type === t && chunk[k]\<close>: the value of the property when the test succeeds.\<close>

definition selected :: "'n platform \<Rightarrow> 'n json \<Rightarrow> jstr \<Rightarrow> jstr \<Rightarrow> 'n json option" where
  "selected P chunk t k =
     (if get_prop chunk (js ''type'') = Some (JStr t) then
        (case get_prop chunk k of
           Some v \<Rightarrow> if truthy P v then Some v else None
         | None \<Rightarrow> None)
      else None)"

text \<open>
  The conversion to a string that \<open>+=\<close> and \<open>Array.prototype.join\<close> apply. An array is
  joined with commas, \<open>null\<close> elements giving the empty string; an object gives
  \<open>[object Object]\<close>, unless it has an own property \<open>toString\<close>, which is not callable:
  then the conversion throws a \<open>TypeError\<close>.
\<close>

definition convert_type_error :: js_error where
  "convert_type_error = JsError (js ''TypeError'') (js ''Cannot convert object to primitive value'')"

fun toString :: "'n platform \<Rightarrow> 'n json \<Rightarrow> js_error + jstr"
and toString_elems :: "'n platform \<Rightarrow> 'n json list \<Rightarrow> js_error + jstr list" where
  "toString P JNull = Inr (js ''null'')"
| "toString P (JBool b) = Inr (if b then js ''true'' else js ''false'')"
| "toString P (JNum n) = Inr (number_to_string P n)"
| "toString P (JStr s) = Inr s"
| "toString P (JArr xs) =
     (case toString_elems P xs of Inl e \<Rightarrow> Inl e | Inr ss \<Rightarrow> Inr (join (js '','') ss))"
| "toString P (JObj kvs) =
     (case map_of kvs (js ''toString'') of
        Some v \<Rightarrow> Inl convert_type_error
      | None \<Rightarrow> Inr (js ''[object Object]''))"
| "toString_elems P [] = Inr []"
| "toString_elems P (x # xs) =
     (case (case x of JNull \<Rightarrow> Inr [] | _ \<Rightarrow> toString P x) of
        Inl e \<Rightarrow> Inl e
      | Inr s \<Rightarrow> (case toString_elems P xs of Inl e \<Rightarrow> Inl e | Inr ss \<Rightarrow> Inr (s # ss)))"

text \<open>\<open>xs.join(sep)\<close> on an array of values.\<close>

definition array_join :: "'n platform \<Rightarrow> jstr \<Rightarrow> 'n json list \<Rightarrow> js_error + jstr" where
  "array_join P sep xs =
     (case toString_elems P xs of Inl e \<Rightarrow> Inl e | Inr ss \<Rightarrow> Inr (join sep ss))"

section \<open>llmApi.chatStream\<close>

datatype chat_result = ChatSuccess jstr | ChatFailure jstr

definition chat_callback :: "('n, 'u) callback option \<Rightarrow> ('n, 'u) callback" where
  "chat_callback onChunk chunk u = (case onChunk of None \<Rightarrow> (None, u) | Some f \<Rightarrow> f chunk u)"

text \<open>\<open>chunks.map((chunk) => chunk.content || '')\<close>.\<close>

fun chat_contents :: "'n platform \<Rightarrow> 'n json list \<Rightarrow> js_error + 'n json list" where
  "chat_contents P [] = Inr []"
| "chat_contents P (chunk # chunks) =
     (case chunk of
        JNull \<Rightarrow> Inl null_type_error
      | _ \<Rightarrow>
          (case chat_contents P chunks of
             Inl e \<Rightarrow> Inl e
           | Inr vs \<Rightarrow>
               Inr ((case get_prop chunk (js ''content'') of
                       Some v \<Rightarrow> if truthy P v then v else JStr []
                     | None \<Rightarrow> JStr []) # vs)))"

definition chatStream ::
  "'n platform \<Rightarrow> js_error + 'n response \<Rightarrow> ('n, 'u) callback option \<Rightarrow> 'u \<Rightarrow> chat_result \<times> 'u" where
  "chatStream P fetched onChunk u =
     (case postSse P fetched (Some (chat_callback onChunk)) u of
        (Inl error, u') \<Rightarrow> (ChatFailure (err_message error), u')
      | (Inr chunks, u') \<Rightarrow>
          (case chat_contents P chunks of
             Inl error \<Rightarrow> (ChatFailure (err_message error), u')
           | Inr vs \<Rightarrow>
               (case array_join P [] vs of
                  Inl error \<Rightarrow> (ChatFailure (err_message error), u')
                | Inr content \<Rightarrow> (ChatSuccess content, u'))))"

section \<open>agentApi.runStream and agentApi.abort\<close>

text \<open>
  The \<open>Set\<close> \<open>toolsUsed\<close> is the list of its elements in insertion order. A \<open>Set\<close> compares
  strings, numbers and booleans by value, arrays and objects by reference. Every decoded
  chunk is a fresh value, so an array or object found in the chunk delivered as number
  \<open>i\<close> is tagged \<open>Some i\<close>; a primitive is tagged \<open>None\<close>.
\<close>

type_synonym 'n set_entry = "nat option \<times> 'n json"

definition entry_of :: "nat \<Rightarrow> 'n json \<Rightarrow> 'n set_entry" where
  "entry_of i v = (case v of JArr xs \<Rightarrow> (Some i, v) | JObj kvs \<Rightarrow> (Some i, v) | _ \<Rightarrow> (None, v))"

definition set_add :: "'a \<Rightarrow> 'a list \<Rightarrow> 'a list" where
  "set_add x xs = (if x \<in> set xs then xs else xs @ [x])"

text \<open>
  The variables the promise of \<open>runStream\<close> closes over, the number of chunks delivered
  so far (which numbers the chunks, see above) and the state of the caller's \<open>onChunk\<close>.
\<close>

record ('n, 'u) agent_vars =
  content :: jstr
  toolsUsed :: "'n set_entry list"
  usage :: "'n json"
  delivered :: nat
  caller :: 'u

definition agent_vars0 :: "'u \<Rightarrow> ('n, 'u) agent_vars" where
  "agent_vars0 u = \<lparr>content = [], toolsUsed = [], usage = JNull, delivered = 0, caller = u\<rparr>"

text \<open>
  The arrow function \<open>runStream\<close> passes to \<open>postSse\<close>, one definition for each of its
  four statements. Reading \<open>chunk.type\<close> throws when the chunk is \<open>null\<close>; \<open>+=\<close> throws
  when the content cannot be converted; the caller's \<open>onChunk\<close> may throw.
\<close>

definition add_content :: "'n platform \<Rightarrow> 'n json \<Rightarrow> ('n, 'u) agent_vars \<Rightarrow> js_error + ('n, 'u) agent_vars" where
  "add_content P chunk st =
     (case selected P chunk (js ''content'') (js ''content'') of
        Some v \<Rightarrow>
          (case toString P v of
             Inl e \<Rightarrow> Inl e
           | Inr t \<Rightarrow> Inr (st\<lparr>content := content st @ t\<rparr>))
      | None \<Rightarrow> Inr st)"

definition add_tool :: "'n platform \<Rightarrow> nat \<Rightarrow> 'n json \<Rightarrow> ('n, 'u) agent_vars \<Rightarrow> ('n, 'u) agent_vars" where
  "add_tool P i chunk st =
     (case selected P chunk (js ''tool_start'') (js ''toolName'') of
        Some v \<Rightarrow> st\<lparr>toolsUsed := set_add (entry_of i v) (toolsUsed st)\<rparr>
      | None \<Rightarrow> st)"

definition set_usage :: "'n platform \<Rightarrow> 'n json \<Rightarrow> ('n, 'u) agent_vars \<Rightarrow> ('n, 'u) agent_vars" where
  "set_usage P chunk st =
     (case selected P chunk (js ''done'') (js ''usage'') of
        Some v \<Rightarrow> st\<lparr>usage := v\<rparr>
      | None \<Rightarrow> st)"

definition call_onChunk ::
  "('n, 'u) callback option \<Rightarrow> 'n json \<Rightarrow> ('n, 'u) agent_vars \<Rightarrow> js_error option \<times> ('n, 'u) agent_vars" where
  "call_onChunk onChunk chunk st =
     (case onChunk of
        None \<Rightarrow> (None, st)
      | Some f \<Rightarrow> (case f chunk (caller st) of (r, u) \<Rightarrow> (r, st\<lparr>caller := u\<rparr>)))"

definition agent_callback ::
  "'n platform \<Rightarrow> ('n, 'u) callback option \<Rightarrow> ('n, ('n, 'u) agent_vars) callback" where
  "agent_callback P onChunk chunk st0 =
     (let i = delivered st0; st = st0\<lparr>delivered := i + 1\<rparr>
      in if chunk = JNull then (Some null_type_error, st)
         else
           (case add_content P chunk st of
              Inl e \<Rightarrow> (Some e, st)
            | Inr st1 \<Rightarrow> call_onChunk onChunk chunk (set_usage P chunk (add_tool P i chunk st1))))"

text \<open>The \<open>for (const chunk of chunks)\<close> loop after \<open>postSse\<close> has returned.\<close>

fun rescan :: "'n platform \<Rightarrow> nat \<Rightarrow> 'n json list \<Rightarrow> 'n set_entry list \<Rightarrow> js_error + 'n set_entry list" where
  "rescan P i [] tools = Inr tools"
| "rescan P i (chunk # chunks) tools =
     (case chunk of
        JNull \<Rightarrow> Inl null_type_error
      | _ \<Rightarrow>
          rescan P (i + 1) chunks
            (case selected P chunk (js ''tool_start'') (js ''toolName'') of
               Some v \<Rightarrow> set_add (entry_of i v) tools
             | None \<Rightarrow> tools))"

record 'n run_result =
  result_content :: jstr
  result_toolsUsed :: "'n json list"
  toolRounds :: nat
  totalUsage :: "'n json"

datatype 'n agent_result = Success "'n run_result" | Failure jstr

text \<open>The \<open>catch\<close> clause of the promise.\<close>

definition settle_error :: "js_error \<Rightarrow> 'n agent_result" where
  "settle_error error =
     (if err_name error = js ''AbortError'' then Failure (js ''aborted'')
      else Failure (err_message error))"

text \<open>
  The \<open>try\<close> and \<open>catch\<close> of the promise, given what \<open>fetch\<close> and the reads deliver to
  it.
\<close>

definition runStream_promise ::
  "'n platform \<Rightarrow> js_error + 'n response \<Rightarrow> ('n, 'u) callback option \<Rightarrow> 'u \<Rightarrow> 'n agent_result \<times> 'u" where
  "runStream_promise P fetched onChunk u =
     (case postSse P fetched (Some (agent_callback P onChunk)) (agent_vars0 u) of
        (Inl error, st) \<Rightarrow> (settle_error error, caller st)
      | (Inr chunks, st) \<Rightarrow>
          (case rescan P 0 chunks (toolsUsed st) of
             Inl error \<Rightarrow> (settle_error error, caller st)
           | Inr tools \<Rightarrow>
               (Success \<lparr>result_content = content st, result_toolsUsed = map snd tools,
                          toolRounds = length tools, totalUsage = usage st\<rparr>, caller st)))"

text \<open>
  The shared state: the map \<open>activeAgentRequests\<close> from request identifiers to
  \<open>AbortController\<close>s (numbered as they are created) and the controllers whose signal
  is aborted.
\<close>

record world =
  activeAgentRequests :: "jstr \<rightharpoonup> nat"
  aborted :: "nat set"
  controllers :: nat

text \<open>
  The object literal \<open>payload\<close> that \<open>runStream\<close> builds from its arguments goes to the
  server; what matters here is whether building it throws. \<open>context\<close> is the argument
  after the default \<open>{}\<close> has taken the place of \<open>undefined\<close>. Reading
  \<open>context.ownerInfo\<close> throws a \<open>TypeError\<close> when \<open>context\<close> is \<open>null\<close>; with an owner,
  \<open>toNumber(ownerInfo.id ?? ownerInfo.platformId, 0)\<close> applies \<open>Number\<close>, which throws when
  its argument cannot be converted to a primitive. Nothing else in the literal throws.
  \<open>or_else\<close> is \<open>a || b\<close> and \<open>coalesce\<close> is \<open>a ?? b\<close> on the results of property reads.
\<close>

definition or_else :: "'n platform \<Rightarrow> 'n json option \<Rightarrow> 'n json option \<Rightarrow> 'n json option" where
  "or_else P a b = (case a of None \<Rightarrow> b | Some v \<Rightarrow> if truthy P v then Some v else b)"

definition coalesce :: "'n json option \<Rightarrow> 'n json option \<Rightarrow> 'n json option" where
  "coalesce a b = (if a = None \<or> a = Some JNull then b else a)"

definition payload_error :: "'n platform \<Rightarrow> 'n json \<Rightarrow> js_error option" where
  "payload_error P context =
     (if context = JNull then Some null_type_error
      else
        (case or_else P (get_prop context (js ''ownerInfo'')) (get_prop context (js ''owner_info'')) of
           None \<Rightarrow> None
         | Some ownerInfo \<Rightarrow>
             if truthy P ownerInfo then
               (case coalesce (get_prop ownerInfo (js ''id'')) (get_prop ownerInfo (js ''platformId'')) of
                  None \<Rightarrow> None
                | Some v \<Rightarrow> (case toString P v of Inl e \<Rightarrow> Some e | Inr t \<Rightarrow> None))
             else None))"

text \<open>
  The synchronous part of \<open>runStream\<close>; \<open>requestId\<close> is what \<open>randomId('agent')\<close>
  returned. The controller is registered first and the payload built next: when that
  throws, \<open>runStream\<close> throws, with the entry in the registry and no promise created.
\<close>

definition runStream_start :: "'n platform \<Rightarrow> jstr \<Rightarrow> 'n json \<Rightarrow> world \<Rightarrow> (js_error + nat) \<times> world" where
  "runStream_start P requestId context w =
     (let controller = controllers w;
          w' = w\<lparr>activeAgentRequests := (activeAgentRequests w)(requestId \<mapsto> controller),
                 controllers := controller + 1\<rparr>
      in (case payload_error P context of
            Some e \<Rightarrow> (Inl e, w')
          | None \<Rightarrow> (Inr controller, w')))"

text \<open>
  What the platform does with the \<open>signal\<close> that \<open>runStream\<close> hands to \<open>postSse\<close> and
  \<open>postSse\<close> to \<open>fetch\<close>. The request waits for the \<open>fetch\<close> and then for each read,
  the last of which reports the end of the body. Before a wait ends, other code runs (an
  \<open>onChunk\<close> the request itself has just called included) and may change the shared
  state: \<open>env\<close> lists, wait by wait, what that code does. Aborting the signal rejects a
  pending \<open>fetch\<close> and puts a body that is still readable into the error state, with
  an \<open>AbortError\<close>, whatever chunks it holds. So when the signal is aborted before the
  \<open>fetch\<close> ends, or before a read that is to give a chunk ends, the promise waited for
  is rejected with the \<open>AbortError\<close>. A body that has come to its end, or that the
  network has put into the error state, is not readable any more, and aborting the
  signal leaves it as it is: \<open>early\<close> says that the end of the body, or the error that
  ends it, has reached the body before the request asks for it (the server has sent
  everything at once, say), so that this last read gives what the network gave. Without
  an abort the request gets what the network delivers: \<open>net\<close> for the \<open>fetch\<close>, the
  reads of its body after that. \<open>fetch_signal\<close> gives what the request sees and the
  shared state when its last wait ends.
\<close>

type_synonym action = "world \<Rightarrow> world"

definition abort_error :: js_error where
  "abort_error = JsError (js ''AbortError'') (js ''The operation was aborted.'')"

definition act :: "action list \<Rightarrow> world \<Rightarrow> world" where
  "act env w = (case env of [] \<Rightarrow> w | a # rest \<Rightarrow> a w)"

fun reads_signal ::
  "nat \<Rightarrow> bool \<Rightarrow> action list \<Rightarrow> read_result list \<Rightarrow> world \<Rightarrow> read_result list \<times> world" where
  "reads_signal signal early env [] w =
     (if \<not> early \<and> signal \<in> aborted (act env w) then ([ReadThrows abort_error], act env w)
      else ([], act env w))"
| "reads_signal signal early env (ReadThrows e # reads) w =
     (if \<not> early \<and> signal \<in> aborted (act env w) then ([ReadThrows abort_error], act env w)
      else ([ReadThrows e], act env w))"
| "reads_signal signal early env (ReadChunk v # reads) w =
     (if signal \<in> aborted (act env w) then ([ReadThrows abort_error], act env w)
      else (case reads_signal signal early (tl env) reads (act env w) of
              (seen, w') \<Rightarrow> (ReadChunk v # seen, w')))"

definition fetch_signal ::
  "nat \<Rightarrow> bool \<Rightarrow> action list \<Rightarrow> js_error + 'n response \<Rightarrow> world \<Rightarrow>
     (js_error + 'n response) \<times> world" where
  "fetch_signal signal early env net w =
     (if signal \<in> aborted (act env w) then (Inl abort_error, act env w)
      else
        (case net of
           Inl e \<Rightarrow> (Inl e, act env w)
         | Inr response \<Rightarrow>
             if \<not> ok response then (Inr response, act env w)
             else
               (case body response of
                  None \<Rightarrow> (Inr response, act env w)
                | Some reads \<Rightarrow>
                    (case reads_signal signal early (tl env) reads (act env w) of
                       (seen, w') \<Rightarrow> (Inr (response\<lparr>body := Some seen\<rparr>), w')))))"

text \<open>
  The promise with its \<open>finally\<close> clause. \<open>tail\<close> is what other code does to the shared
  state after the last wait of the request has ended and before the promise settles:
  there the request runs without waiting, so this is the work of the \<open>onChunk\<close> calls
  it makes for the rest of the buffer.
\<close>

definition runStream_settle ::
  "'n platform \<Rightarrow> js_error + 'n response \<Rightarrow> bool \<Rightarrow> ('n, 'u) callback option \<Rightarrow> jstr \<Rightarrow> nat \<Rightarrow>
     action list \<Rightarrow> action \<Rightarrow> 'u \<Rightarrow> world \<Rightarrow> ('n agent_result \<times> 'u) \<times> world" where
  "runStream_settle P net early onChunk requestId controller env tail u w =
     (case fetch_signal controller early env net w of
        (fetched, w') \<Rightarrow>
          (runStream_promise P fetched onChunk u,
           (tail w')\<lparr>activeAgentRequests := (activeAgentRequests (tail w'))(requestId := None)\<rparr>))"

text \<open>
  \<open>runStream\<close> from the call to the settlement of the promise it returns: \<open>Inl\<close> when the
  call itself throws.
\<close>

definition runStream ::
  "'n platform \<Rightarrow> js_error + 'n response \<Rightarrow> bool \<Rightarrow> ('n, 'u) callback option \<Rightarrow> jstr \<Rightarrow>
     'n json \<Rightarrow> action list \<Rightarrow> action \<Rightarrow> 'u \<Rightarrow> world \<Rightarrow>
     (js_error + 'n agent_result \<times> 'u) \<times> world" where
  "runStream P net early onChunk requestId context env tail u w =
     (case runStream_start P requestId context w of
        (Inl e, w') \<Rightarrow> (Inl e, w')
      | (Inr controller, w') \<Rightarrow>
          (case runStream_settle P net early onChunk requestId controller env tail u w' of
             (r, w'') \<Rightarrow> (Inr r, w'')))"

text \<open>\<open>httpRequest\<close>: the \<open>catch\<close> logs the error and throws it again.\<close>

definition httpRequest :: "js_error + 'n response \<Rightarrow> js_error + 'n json" where
  "httpRequest fetched =
     (case fetched of
        Inl error \<Rightarrow> Inl error
      | Inr response \<Rightarrow> if \<not> ok response then Inl (http_error response) else json_result response)"

text \<open>\<open>encodeURIComponent\<close> throws a \<open>URIError\<close> on a string with a lone surrogate.\<close>

fun lone_surrogate :: "jstr \<Rightarrow> bool" where
  "lone_surrogate [] = False"
| "lone_surrogate [c] = (0xD800 \<le> c \<and> c \<le> 0xDFFF)"
| "lone_surrogate (c # d # cs) =
     (if 0xD800 \<le> c \<and> c \<le> 0xDBFF then \<not> (0xDC00 \<le> d \<and> d \<le> 0xDFFF) \<or> lone_surrogate cs
      else (0xDC00 \<le> c \<and> c \<le> 0xDFFF) \<or> lone_surrogate (d # cs))"

definition uri_error :: js_error where
  "uri_error = JsError (js ''URIError'') (js ''URI malformed'')"

text \<open>
  \<open>agentApi.abort\<close>. \<open>remote\<close> is what the \<open>fetch\<close> of \<open>POST /agent/abort/<id>\<close> gives.
  The result is what the returned promise settles to: \<open>Inl\<close> when it rejects.
\<close>

definition abort :: "jstr \<Rightarrow> js_error + 'n response \<Rightarrow> world \<Rightarrow> (js_error + 'n json) \<times> world" where
  "abort requestId remote w =
     (let w' = (case activeAgentRequests w requestId of
                  Some controller \<Rightarrow>
                    w\<lparr>aborted := insert controller (aborted w),
                      activeAgentRequests := (activeAgentRequests w)(requestId := None)\<rparr>
                | None \<Rightarrow> w)
      in (if lone_surrogate requestId then Inl uri_error else httpRequest remote, w'))"

section \<open>A platform to run examples on\<close>

text \<open>
  To evaluate the functions above on concrete streams, the platform is instantiated with
  integers for numbers and with a reader for the JSON texts the examples use: objects,
  arrays, strings without escapes, integers without fraction or exponent, \<open>true\<close>,
  \<open>false\<close> and \<open>null\<close>. Every other text is rejected with a \<open>SyntaxError\<close>. The general
  theorems below hold for an arbitrary platform.
\<close>

definition json_ws :: "16 word \<Rightarrow> bool" where
  "json_ws c \<longleftrightarrow> c = 0x20 \<or> c = 0x09 \<or> c = 0x0A \<or> c = 0x0D"

definition is_digit :: "16 word \<Rightarrow> bool" where
  "is_digit c \<longleftrightarrow> 0x30 \<le> c \<and> c \<le> 0x39"

fun read_string :: "jstr \<Rightarrow> (jstr \<times> jstr) option" where
  "read_string [] = None"
| "read_string (c # cs) =
     (if c = 0x22 then Some ([], cs)
      else if c = 0x5C \<or> c < 0x20 then None
      else (case read_string cs of None \<Rightarrow> None | Some (s, r) \<Rightarrow> Some (c # s, r)))"

definition digits_value :: "jstr \<Rightarrow> int" where
  "digits_value ds = foldl (\<lambda>a c. 10 * a + (uint c - 48)) 0 ds"

definition read_number :: "jstr \<Rightarrow> (int \<times> jstr) option" where
  "read_number cs =
     (let neg = (case cs of [] \<Rightarrow> False | c # r \<Rightarrow> c = 0x2D);
          cs1 = (if neg then tl cs else cs);
          ds = takeWhile is_digit cs1;
          r = dropWhile is_digit cs1
      in if ds = [] \<or> (length ds > 1 \<and> hd ds = 0x30) then None
         else (case r of
                 [] \<Rightarrow> Some (if neg then - digits_value ds else digits_value ds, r)
               | c # r' \<Rightarrow>
                   if c = 0x2E \<or> c = 0x65 \<or> c = 0x45 then None
                   else Some (if neg then - digits_value ds else digits_value ds, r)))"

fun read_value :: "nat \<Rightarrow> jstr \<Rightarrow> (int json \<times> jstr) option"
and read_elements :: "nat \<Rightarrow> jstr \<Rightarrow> (int json list \<times> jstr) option"
and read_members :: "nat \<Rightarrow> jstr \<Rightarrow> ((jstr \<times> int json) list \<times> jstr) option" where
  "read_value 0 cs = None"
| "read_value (Suc n) cs =
     (case dropWhile json_ws cs of
        [] \<Rightarrow> None
      | c # r \<Rightarrow>
          if c = 0x22 then
            (case read_string r of None \<Rightarrow> None | Some (s, r') \<Rightarrow> Some (JStr s, r'))
          else if c = 0x5B then
            (case dropWhile json_ws r of
               [] \<Rightarrow> None
             | d # r' \<Rightarrow>
                 if d = 0x5D then Some (JArr [], r')
                 else (case read_elements n r of None \<Rightarrow> None | Some (vs, r'') \<Rightarrow> Some (JArr vs, r'')))
          else if c = 0x7B then
            (case dropWhile json_ws r of
               [] \<Rightarrow> None
             | d # r' \<Rightarrow>
                 if d = 0x7D then Some (JObj [], r')
                 else (case read_members n r of
                         None \<Rightarrow> None
                       | Some (kvs, r'') \<Rightarrow> Some (JObj (assign_entries [] kvs), r'')))
          else if startsWith (js ''true'') (c # r) then Some (JBool True, drop 4 (c # r))
          else if startsWith (js ''false'') (c # r) then Some (JBool False, drop 5 (c # r))
          else if startsWith (js ''null'') (c # r) then Some (JNull, drop 4 (c # r))
          else (case read_number (c # r) of None \<Rightarrow> None | Some (i, r') \<Rightarrow> Some (JNum i, r')))"
| "read_elements 0 cs = None"
| "read_elements (Suc n) cs =
     (case read_value n cs of
        None \<Rightarrow> None
      | Some (v, r) \<Rightarrow>
          (case dropWhile json_ws r of
             [] \<Rightarrow> None
           | d # r' \<Rightarrow>
               if d = 0x5D then Some ([v], r')
               else if d = 0x2C then
                 (case read_elements n r' of None \<Rightarrow> None | Some (vs, r'') \<Rightarrow> Some (v # vs, r''))
               else None))"
| "read_members 0 cs = None"
| "read_members (Suc n) cs =
     (case dropWhile json_ws cs of
        [] \<Rightarrow> None
      | q # r0 \<Rightarrow>
          if q \<noteq> 0x22 then None
          else
            (case read_string r0 of
               None \<Rightarrow> None
             | Some (k, r1) \<Rightarrow>
                 (case dropWhile json_ws r1 of
                    [] \<Rightarrow> None
                  | colon # r2 \<Rightarrow>
                      if colon \<noteq> 0x3A then None
                      else
                        (case read_value n r2 of
                           None \<Rightarrow> None
                         | Some (v, r3) \<Rightarrow>
                             (case dropWhile json_ws r3 of
                                [] \<Rightarrow> None
                              | d # r4 \<Rightarrow>
                                  if d = 0x7D then Some ([(k, v)], r4)
                                  else if d = 0x2C then
                                    (case read_members n r4 of
                                       None \<Rightarrow> None
                                     | Some (kvs, r5) \<Rightarrow> Some ((k, v) # kvs, r5))
                                  else None)))))"

definition syntax_error :: js_error where
  "syntax_error = JsError (js ''SyntaxError'') (js ''Unexpected token'')"

definition example_parse :: "jstr \<Rightarrow> js_error + int json" where
  "example_parse t =
     (case read_value (Suc (length t)) t of
        None \<Rightarrow> Inl syntax_error
      | Some (v, r) \<Rightarrow> if dropWhile json_ws r = [] then Inr v else Inl syntax_error)"

definition example_platform :: "int platform" where
  "example_platform =
     \<lparr>json_parse = example_parse,
      number_truthy = (\<lambda>i. i \<noteq> 0),
      number_to_string = (\<lambda>i. if i < 0 then 0x2D # decimal (nat (- i)) else decimal (nat i)),
      stack_depth = 10000\<rparr>"

text \<open>The same platform with room for three activations of \<open>toCamelDeep\<close> only.\<close>

definition shallow_platform :: "int platform" where
  "shallow_platform = example_platform\<lparr>stack_depth := 3\<rparr>"

text \<open>ASCII text as bytes, and a response that is ok and whose body delivers the given chunks.\<close>

definition bytes :: "string \<Rightarrow> byte list" where
  "bytes s = map of_char s"

definition stream_of :: "byte list list \<Rightarrow> 'n response" where
  "stream_of vs =
     \<lparr>ok = True, status = 200, statusText = js ''OK'',
      body = Some (map ReadChunk vs),
      json_result = Inl (JsError (js ''SyntaxError'') (js ''Unexpected token''))\<rparr>"

text \<open>A caller's \<open>onChunk\<close> that records what it is given.\<close>

definition record_chunks :: "('n, 'n json list) callback" where
  "record_chunks chunk seen = (None, seen @ [chunk])"

text \<open>
  Three bodies: the three records of scenario A separated by blank lines; a body in two
  chunks, cut inside a record, with a tool named twice; and a body whose second record
  is the JSON text \<open>null\<close>.
\<close>

definition scenario_A :: "byte list" where
  "scenario_A = bytes ''data: {\"type\":\"content\",\"content\":\"Hi\"}\<newline>\<newline>data: {\"type\":\"tool_start\",\"toolName\":\"search\"}\<newline>\<newline>data: {\"type\":\"done\",\"usage\":{\"tokens\":5}}''"

definition scenario_W :: "byte list list" where
  "scenario_W =
     [bytes ''data: {\"type\":\"content\",\"content\":\"H\"}\<newline>\<newline>data: {\"type\":\"tool_start\",\"to'',
      bytes ''olName\":\"a\"}\<newline>\<newline>data: {\"type\":\"tool_start\",\"toolName\":\"a\"}\<newline>\<newline>data: {\"type\":\"done\",\"usage\":2}\<newline>\<newline>'']"

definition null_stream :: "byte list" where
  "null_stream = bytes ''data: {\"type\":\"tool_start\",\"toolName\":\"a\"}\<newline>\<newline>data: null\<newline>\<newline>''"

text \<open>The shared state before any request.\<close>

definition empty_world :: world where
  "empty_world = \<lparr>activeAgentRequests = Map.empty, aborted = {}, controllers = 0\<rparr>"

section \<open>Notions used in the statements\<close>

text \<open>
  What \<open>toCamelDeep\<close> returns when the stack has room, and the number of activations,
  one inside the other, that a value asks of it.
\<close>

primrec camel_keys :: "'n json \<Rightarrow> 'n json" where
  "camel_keys JNull = JNull"
| "camel_keys (JBool b) = JBool b"
| "camel_keys (JNum n) = JNum n"
| "camel_keys (JStr s) = JStr s"
| "camel_keys (JArr xs) = JArr (map camel_keys xs)"
| "camel_keys (JObj kvs) = JObj (assign_entries [] (map (map_prod snakeToCamel camel_keys) kvs))"

primrec nesting :: "'n json \<Rightarrow> nat" where
  "nesting JNull = 1"
| "nesting (JBool b) = 1"
| "nesting (JNum n) = 1"
| "nesting (JStr s) = 1"
| "nesting (JArr xs) = Suc (fold max (map nesting xs) 0)"
| "nesting (JObj kvs) = Suc (fold max (map snd (map (map_prod id nesting) kvs)) 0)"

text \<open>
  What a block decodes to: no event when it has no payload, else the parsed payload (or
  the fallback object) with its keys converted; \<open>Inl\<close> when the conversion throws.
\<close>

definition decoded :: "'n platform \<Rightarrow> jstr \<Rightarrow> js_error + 'n json list" where
  "decoded P block =
     (if dataText_of block = [] then Inr []
      else
        (case toCamelDeep (stack_depth P)
                (case json_parse P (dataText_of block) of
                   Inr v \<Rightarrow> v
                 | Inl e \<Rightarrow> JObj [(js ''content'', JStr (dataText_of block))]) of
           Inl e \<Rightarrow> Inl e
         | Inr ev \<Rightarrow> Inr [ev]))"

text \<open>The state of an observer after it was given the events in turn; what it throws is dropped.\<close>

fun deliver :: "('n, 's) callback option \<Rightarrow> 'n json list \<Rightarrow> 's \<Rightarrow> 's" where
  "deliver onChunk [] s = s"
| "deliver onChunk (ev # evs) s =
     deliver onChunk evs (case onChunk of None \<Rightarrow> s | Some f \<Rightarrow> snd (f ev s))"

text \<open>The blocks that two consecutive line feeds end in a text, trimmed, and the text left over.\<close>

function cut_records :: "jstr \<Rightarrow> jstr list \<times> jstr" where
  "cut_records buffer =
     (case indexOf_lflf buffer of
        None \<Rightarrow> ([], buffer)
      | Some i \<Rightarrow>
          (case cut_records (drop (i + 2) buffer) of (bs, r) \<Rightarrow> (trim (take i buffer) # bs, r)))"
  by pat_completeness auto
termination
  by (relation "measure length") (auto elim: indexOf_lflf.elims)

declare cut_records.simps [simp del]

text \<open>
  The text that reaches the buffer when the chunks are decoded one after the other,
  each decoded chunk having its CR LF pairs replaced on its own.
\<close>

fun feed_text :: "utf8_decoder \<Rightarrow> byte list list \<Rightarrow> utf8_decoder \<times> jstr" where
  "feed_text d [] = (d, [])"
| "feed_text d (v # vs) =
     (case decode_stream d v of (d1, t) \<Rightarrow>
        (case feed_text d1 vs of (d2, ts) \<Rightarrow> (d2, replace_crlf t @ ts)))"

text \<open>\<open>emitBlock\<close> applied to the blocks of a list in turn, up to the first that throws.\<close>

fun emit_blocks ::
  "'n platform \<Rightarrow> ('n, 's) callback option \<Rightarrow> jstr list \<Rightarrow> 'n json list \<Rightarrow> 's \<Rightarrow>
     (js_error + 'n json list) \<times> 's" where
  "emit_blocks P onChunk [] chunks s = (Inr chunks, s)"
| "emit_blocks P onChunk (block # blocks) chunks s =
     (case emitBlock P onChunk block chunks s of
        (Inl e, s') \<Rightarrow> (Inl e, s')
      | (Inr chunks', s') \<Rightarrow> emit_blocks P onChunk blocks chunks' s')"

text \<open>
  The blocks of a body whose reads deliver the chunks \<open>vs\<close> and then report the end: the
  records that blank lines end and, last, what is left of the text. \<open>events_of\<close> lists
  the events of the blocks that decode, and \<open>decodable\<close> says that all of them do.
\<close>

definition blocks_of :: "byte list list \<Rightarrow> jstr list" where
  "blocks_of vs =
     (case feed_text new_decoder vs of (d, T) \<Rightarrow>
        (case cut_records T of (bs, r) \<Rightarrow> bs @ [trim (r @ replace_crlf (decode_flush d))]))"

definition events_of :: "'n platform \<Rightarrow> byte list list \<Rightarrow> 'n json list" where
  "events_of P vs =
     concat (map (\<lambda>block. case decoded P block of Inl e \<Rightarrow> [] | Inr evs \<Rightarrow> evs) (blocks_of vs))"

definition decodable :: "'n platform \<Rightarrow> byte list list \<Rightarrow> bool" where
  "decodable P vs = list_all (\<lambda>block. case decoded P block of Inl e \<Rightarrow> False | Inr evs \<Rightarrow> True) (blocks_of vs)"

text \<open>
  What holds of the decoder between two bytes: no sequence is open, or the code point
  collected so far is within the bounds of the sequence it belongs to.
\<close>

definition decoder_ok :: "utf8_decoder \<Rightarrow> bool" where
  "decoder_ok d \<longleftrightarrow>
     (bytes_needed d = 0 \<and> bytes_seen d = 0 \<and> lower_boundary d = 0x80 \<and> upper_boundary d = 0xBF) \<or>
     (bytes_seen d < bytes_needed d \<and> upper_boundary d \<le> 0xBF \<and>
      ((bytes_needed d - bytes_seen d = 1 \<and> code_point d < 32768) \<or>
       (bytes_needed d - bytes_seen d = 2 \<and> code_point d < 512) \<or>
       (bytes_needed d - bytes_seen d = 3 \<and> code_point d < 8)) \<and>
      (1 \<le> code_point d \<or> (bytes_seen d = 0 \<and> 2 \<le> bytes_needed d \<and> 0x90 \<le> lower_boundary d)))"

text \<open>
  The payload as the specification words it: the prefix and at most one leading space
  are removed from each retained line.
\<close>

definition strip_one_space :: "jstr \<Rightarrow> jstr" where
  "strip_one_space s = (case s of [] \<Rightarrow> [] | c # cs \<Rightarrow> if c = 0x20 then cs else s)"

definition payload_as_specified :: "jstr \<Rightarrow> jstr" where
  "payload_as_specified block =
     join [LF] (map (\<lambda>line. strip_one_space (drop 5 line))
                    (filter (\<lambda>line. startsWith (js ''data:'') line) (split_lf block)))"

text \<open>
  The keys of a value at every depth, and keys without an underscore before a lower-case
  letter. Then the two casings as the specification speaks of them, as far as the
  statements need them: a key is in snake case here when each of its underscores comes
  directly before a lower-case letter, and a key in camel case has no underscore.
\<close>

primrec keys_deep :: "'n json \<Rightarrow> jstr set" where
  "keys_deep JNull = {}"
| "keys_deep (JBool b) = {}"
| "keys_deep (JNum n) = {}"
| "keys_deep (JStr s) = {}"
| "keys_deep (JArr xs) = \<Union> (set (map keys_deep xs))"
| "keys_deep (JObj kvs) = (\<Union>p \<in> set (map (map_prod id keys_deep) kvs). insert (fst p) (snd p))"

fun snake_free :: "jstr \<Rightarrow> bool" where
  "snake_free (u # c # cs) = (\<not> (u = 0x5F \<and> is_lower c) \<and> snake_free (c # cs))"
| "snake_free cs = True"

fun snake_case :: "jstr \<Rightarrow> bool" where
  "snake_case (u # c # cs) = ((u = 0x5F \<longrightarrow> is_lower c) \<and> snake_case (c # cs))"
| "snake_case [u] = (u \<noteq> 0x5F)"
| "snake_case [] = True"

definition camel_case :: "jstr \<Rightarrow> bool" where
  "camel_case k \<longleftrightarrow> 0x5F \<notin> set k"

text \<open>What a chunk adds to \<open>content\<close>, the usage values of the done events, the tool entries.\<close>

definition content_piece :: "'n platform \<Rightarrow> 'n json \<Rightarrow> jstr" where
  "content_piece P chunk =
     (case selected P chunk (js ''content'') (js ''content'') of
        None \<Rightarrow> []
      | Some v \<Rightarrow> (case toString P v of Inl e \<Rightarrow> [] | Inr t \<Rightarrow> t))"

definition done_usages :: "'n platform \<Rightarrow> 'n json list \<Rightarrow> 'n json list" where
  "done_usages P chunks = List.map_filter (\<lambda>chunk. selected P chunk (js ''done'') (js ''usage'')) chunks"

definition last_usage :: "'n platform \<Rightarrow> 'n json list \<Rightarrow> 'n json" where
  "last_usage P chunks = (if done_usages P chunks = [] then JNull else last (done_usages P chunks))"

fun tool_entries :: "'n platform \<Rightarrow> nat \<Rightarrow> 'n json list \<Rightarrow> 'n set_entry list" where
  "tool_entries P i [] = []"
| "tool_entries P i (chunk # chunks) =
     (case selected P chunk (js ''tool_start'') (js ''toolName'') of
        Some v \<Rightarrow> entry_of i v # tool_entries P (i + 1) chunks
      | None \<Rightarrow> tool_entries P (i + 1) chunks)"

text \<open>The elements of a list in the order of their first occurrence.\<close>

definition first_occurrences :: "'a list \<Rightarrow> 'a list" where
  "first_occurrences xs = rev (remdups (rev xs))"

text \<open>
  A call of \<open>agentApi.abort\<close> as an action on the shared state, and what the promise of
  \<open>runStream\<close> settles to (\<open>None\<close> when the call threw and there is no promise). Then
  the shared state after a list of actions. \<open>quiet c env w\<close>: run from \<open>w\<close>, no action of
  \<open>env\<close> leaves the signal of controller \<open>c\<close> aborted. \<open>in_flight k\<close>: the request waits
  at its wait number \<open>k\<close>, where wait \<open>0\<close> is the \<open>fetch\<close> and wait \<open>j + 1\<close> the read after
  \<open>j\<close> chunks: the response was ok with a body, the loop has taken \<open>j\<close> chunks without
  throwing, and the read is to give a chunk, or what ends the body has not reached it
  early.
\<close>

definition abort_call :: "jstr \<Rightarrow> js_error + 'n response \<Rightarrow> action" where
  "abort_call requestId remote w = snd (abort requestId remote w)"

definition settlement :: "(js_error + 'r \<times> 'u) \<times> world \<Rightarrow> 'r option" where
  "settlement run = (case fst run of Inl e \<Rightarrow> None | Inr (r, u) \<Rightarrow> Some r)"

fun run_actions :: "action list \<Rightarrow> world \<Rightarrow> world" where
  "run_actions [] w = w"
| "run_actions (a # env) w = run_actions env (a w)"

fun quiet :: "nat \<Rightarrow> action list \<Rightarrow> world \<Rightarrow> bool" where
  "quiet c [] w = True"
| "quiet c (a # env) w = (c \<notin> aborted (a w) \<and> quiet c env (a w))"

fun chunk_next :: "read_result list \<Rightarrow> bool" where
  "chunk_next (ReadChunk v # reads) = True"
| "chunk_next reads = False"

fun in_flight ::
  "'n platform \<Rightarrow> ('n, 'u) callback option \<Rightarrow> 'u \<Rightarrow> nat \<Rightarrow> js_error + 'n response \<Rightarrow> bool \<Rightarrow> bool" where
  "in_flight P onChunk u 0 net early = True"
| "in_flight P onChunk u (Suc j) (Inl e) early = False"
| "in_flight P onChunk u (Suc j) (Inr response) early =
     (ok response \<and>
      (case body response of
         None \<Rightarrow> False
       | Some reads \<Rightarrow>
           j \<le> length reads \<and>
           (case fst (read_loop P (Some (agent_callback P onChunk)) (take j reads)
                        new_decoder [] [] (agent_vars0 u)) of
              Inl e \<Rightarrow> False
            | Inr r \<Rightarrow> True) \<and>
           (chunk_next (drop j reads) \<or> \<not> early)))"

section \<open>The room toCamelDeep needs\<close>

lemma fold_max_le: "fold max ys (a :: nat) \<le> n \<longleftrightarrow> a \<le> n \<and> (\<forall>y \<in> set ys. y \<le> n)"
  by (induction ys arbitrary: a) auto

lemma nesting_pos: "0 < nesting v"
  by (cases v) simp_all

lemma toCamelDeep_eq:
  fixes v :: "'n json" and xs :: "'n json list" and kvs :: "(jstr \<times> 'n json) list"
  shows
  "toCamelDeep room v = (if nesting v \<le> room then Inr (camel_keys v) else Inl range_error)"
  "toCamelDeep_items room xs =
     (if \<forall>x \<in> set xs. nesting x \<le> room then Inr (map camel_keys xs) else Inl range_error)"
  "toCamelDeep_entries room kvs out =
     (if \<forall>p \<in> set kvs. nesting (snd p) \<le> room
      then Inr (assign_entries out (map (map_prod snakeToCamel camel_keys) kvs))
      else Inl range_error)"
proof (induction room v and room xs and room kvs out
       rule: toCamelDeep_toCamelDeep_items_toCamelDeep_entries.induct)
  case (1 v)
  then show ?case using nesting_pos [of v] by simp
next
  case (6 room xs)
  then show ?case by (simp add: fold_max_le)
next
  case (7 room kvs)
  then show ?case by (auto simp: fold_max_le)
next
  case (9 room x xs)
  then show ?case by auto
next
  case (11 room k v kvs out)
  then show ?case by auto
qed simp_all

section \<open>How the loops cut and deliver\<close>

lemma dataText_of_Nil: "dataText_of [] = []"
  by (simp add: dataText_of_def startsWith_def js_def)

lemma decoded_Nil: "decoded P [] = Inr []"
  by (simp add: decoded_def dataText_of_Nil)

lemma deliver_append: "deliver cb (xs @ ys) s = deliver cb ys (deliver cb xs s)"
  by (induction xs arbitrary: s) auto

lemma emitBlock_eq:
  "emitBlock P cb block chunks s =
     (case decoded P block of
        Inl e \<Rightarrow> (Inl e, s)
      | Inr evs \<Rightarrow> (Inr (chunks @ evs), deliver cb evs s))"
  by (auto simp: emitBlock_def decoded_def Let_def dataText_of_Nil
           split: option.splits prod.splits sum.splits)

lemma emit_blocks_append:
  "emit_blocks P cb (xs @ ys) chunks s =
     (case emit_blocks P cb xs chunks s of
        (Inl e, s') \<Rightarrow> (Inl e, s')
      | (Inr chunks', s') \<Rightarrow> emit_blocks P cb ys chunks' s')"
  by (induction xs arbitrary: chunks s) (auto split: prod.splits sum.splits)

lemma emit_blocks_decodable:
  "list_all (\<lambda>block. case decoded P block of Inl e \<Rightarrow> False | Inr evs \<Rightarrow> True) bs \<Longrightarrow>
   emit_blocks P cb bs chunks s =
     (Inr (chunks @ concat (map (\<lambda>block. case decoded P block of Inl e \<Rightarrow> [] | Inr evs \<Rightarrow> evs) bs)),
      deliver cb (concat (map (\<lambda>block. case decoded P block of Inl e \<Rightarrow> [] | Inr evs \<Rightarrow> evs) bs)) s)"
  by (induction bs arbitrary: chunks s) (auto simp: emitBlock_eq deliver_append split: sum.splits)

lemma indexOf_lflf_Some:
  "indexOf_lflf b = Some i \<Longrightarrow> i + 2 \<le> length b \<and> indexOf_lflf (b @ x) = Some i"
proof (induction b arbitrary: i rule: indexOf_lflf.induct)
  case (1 c d cs)
  then show ?case by (auto split: if_splits)
qed simp_all

lemma frame_loop_eq:
  "frame_loop P cb buffer chunks s =
     (case cut_records buffer of (bs, r) \<Rightarrow>
        (case emit_blocks P cb bs chunks s of
           (Inl e, s') \<Rightarrow> (Inl e, s')
         | (Inr chunks', s') \<Rightarrow> (Inr (r, chunks'), s')))"
proof (induction buffer arbitrary: chunks s rule: cut_records.induct)
  case (1 buffer)
  show ?case
  proof (cases "indexOf_lflf buffer")
    case None
    then show ?thesis
      by (simp add: frame_loop.simps [of _ _ buffer] cut_records.simps [of buffer])
  next
    case (Some i)
    then show ?thesis
      using "1.IH" [OF Some]
      by (simp add: frame_loop.simps [of _ _ buffer] cut_records.simps [of buffer]
            split: prod.splits sum.splits)
  qed
qed

lemma cut_records_append:
  "cut_records (b @ x) =
     (case cut_records b of (bs, r) \<Rightarrow>
        (case cut_records (r @ x) of (bs', r') \<Rightarrow> (bs @ bs', r')))"
proof (induction b rule: cut_records.induct)
  case (1 buffer)
  show ?case
  proof (cases "indexOf_lflf buffer")
    case None
    then show ?thesis
      by (simp add: cut_records.simps [of buffer] split: prod.splits)
  next
    case (Some i)
    from indexOf_lflf_Some [OF Some, of x]
    have len: "i + 2 \<le> length buffer" and idx: "indexOf_lflf (buffer @ x) = Some i"
      by simp_all
    show ?thesis
      using "1.IH" [OF Some] len
      by (simp add: cut_records.simps [of buffer] cut_records.simps [of "buffer @ x"] Some idx
            split: prod.splits)
  qed
qed

lemma cut_records_rest: "cut_records b = (bs, r) \<Longrightarrow> indexOf_lflf r = None"
proof (induction b arbitrary: bs r rule: cut_records.induct)
  case (1 buffer)
  show ?case
  proof (cases "indexOf_lflf buffer")
    case None
    with "1.prems" show ?thesis
      by (simp add: cut_records.simps [of buffer])
  next
    case (Some i)
    with "1.prems" "1.IH" [OF Some] show ?thesis
      by (auto simp: cut_records.simps [of buffer] split: prod.splits)
  qed
qed

lemma read_loop_chunks:
  "indexOf_lflf buffer = None \<Longrightarrow>
   read_loop P cb (map ReadChunk vs) d buffer chunks s =
     (case feed_text d vs of (d', T) \<Rightarrow>
        (case cut_records (buffer @ T) of (bs, r) \<Rightarrow>
           (case emit_blocks P cb bs chunks s of
              (Inl e, s') \<Rightarrow> (Inl e, s')
            | (Inr chunks', s') \<Rightarrow> (Inr (d', r, chunks'), s'))))"
proof (induction vs arbitrary: d buffer chunks s)
  case Nil
  then show ?case
    by (simp add: cut_records.simps [of buffer])
next
  case (Cons v vs)
  obtain d1 t where dec: "decode_stream d v = (d1, t)"
    by (cases "decode_stream d v")
  obtain d2 T where feed: "feed_text d1 vs = (d2, T)"
    by (cases "feed_text d1 vs")
  obtain bs1 r1 where cut1: "cut_records (buffer @ replace_crlf t) = (bs1, r1)"
    by (cases "cut_records (buffer @ replace_crlf t)")
  obtain bs2 r2 where cut2: "cut_records (r1 @ T) = (bs2, r2)"
    by (cases "cut_records (r1 @ T)")
  have whole: "cut_records (buffer @ replace_crlf t @ T) = (bs1 @ bs2, r2)"
    using cut_records_append [of "buffer @ replace_crlf t" T] cut1 cut2 by simp
  have rest: "indexOf_lflf r1 = None"
    using cut1 by (rule cut_records_rest)
  show ?case
    by (simp add: dec feed cut1 cut2 whole frame_loop_eq Cons.IH [OF rest] emit_blocks_append
          split: prod.splits sum.splits)
qed

lemma consume_blocks:
  assumes "ok response" and "body response = Some (map ReadChunk vs)"
  shows "consumeSseResponse P response cb s = emit_blocks P cb (blocks_of vs) [] s"
proof -
  obtain d T where feed: "feed_text new_decoder vs = (d, T)"
    by (cases "feed_text new_decoder vs")
  obtain bs r where cut: "cut_records T = (bs, r)"
    by (cases "cut_records T")
  have "read_loop P cb (map ReadChunk vs) new_decoder [] [] s =
          (case emit_blocks P cb bs [] s of
             (Inl e, s') \<Rightarrow> (Inl e, s')
           | (Inr chunks', s') \<Rightarrow> (Inr (d, r, chunks'), s'))"
    using read_loop_chunks [of "[]" P cb vs new_decoder "[]" s] feed cut by simp
  then show ?thesis
    using assms feed cut
    by (simp add: consumeSseResponse_def blocks_of_def emit_blocks_append
          split: prod.splits sum.splits)
qed

lemma consume_chunks:
  assumes "ok response" and "body response = Some (map ReadChunk vs)" and "decodable P vs"
  shows "consumeSseResponse P response cb s = (Inr (events_of P vs), deliver cb (events_of P vs) s)"
  using consume_blocks [OF assms(1,2), of P cb s] emit_blocks_decodable [of P "blocks_of vs" cb "[]" s] assms(3)
  by (simp add: decodable_def events_of_def)

lemmas eval_text = js_def bytes_def LF_def CR_def is_ws_def trim_def trimStart_def trimEnd_def
  startsWith_def dataText_of_def

lemmas eval_decoder = new_decoder_def utf8_handler_def utf8_lead_def utf16_def reset_sequence_def
  decode_flush_def

lemmas eval_parse = example_platform_def example_parse_def json_ws_def read_number_def
  is_digit_def digits_value_def syntax_error_def toCamelDeep_eq

section \<open>The trailing flush\<close>

text \<open>
  Claim C7. When the reads deliver chunks and then report the end, the text left in the
  buffer (which holds no blank line) is joined by what the decoder flushes, trimmed, and
  goes through \<open>emitBlock\<close> like every block cut before it: the whole run is \<open>emitBlock\<close>
  applied in turn to the records and then to this rest. So when the records before it
  were emitted and the rest decodes, its event, if it has one, is appended to the
  returned list and given to the observer last; and when the rest is empty after
  trimming, the result is the one of the records cut before.
\<close>

theorem trailing_flush:
  assumes "ok response" and "body response = Some (map ReadChunk vs)"
    and "feed_text new_decoder vs = (d, T)" and "cut_records T = (bs, r)"
  shows "indexOf_lflf r = None \<and>
         consumeSseResponse P response onChunk s =
           emit_blocks P onChunk (bs @ [trim (r @ replace_crlf (decode_flush d))]) [] s \<and>
         (emit_blocks P onChunk bs [] s = (Inr chunks, s') \<and>
          decoded P (trim (r @ replace_crlf (decode_flush d))) = Inr evs \<longrightarrow>
            consumeSseResponse P response onChunk s = (Inr (chunks @ evs), deliver onChunk evs s') \<and>
            length evs \<le> 1) \<and>
         (trim (r @ replace_crlf (decode_flush d)) = [] \<longrightarrow>
            consumeSseResponse P response onChunk s = emit_blocks P onChunk bs [] s)"
proof -
  let ?rest = "trim (r @ replace_crlf (decode_flush d))"
  have rest: "indexOf_lflf r = None"
    using assms(4) by (rule cut_records_rest)
  have whole: "consumeSseResponse P response onChunk s = emit_blocks P onChunk (bs @ [?rest]) [] s"
    using consume_blocks [OF assms(1,2), of P onChunk s] assms(3,4)
    by (simp add: blocks_of_def)
  have last: "emit_blocks P onChunk bs [] s = (Inr chunks, s') \<and> decoded P ?rest = Inr evs \<longrightarrow>
      consumeSseResponse P response onChunk s = (Inr (chunks @ evs), deliver onChunk evs s') \<and>
      length evs \<le> 1"
    by (auto simp: whole emit_blocks_append emitBlock_eq decoded_def split: if_splits sum.splits)
  have none: "?rest = [] \<longrightarrow> consumeSseResponse P response onChunk s = emit_blocks P onChunk bs [] s"
    by (auto simp: whole emit_blocks_append emitBlock_eq decoded_Nil split: prod.splits sum.splits)
  show ?thesis
    using rest whole last none by blast
qed

theorem trailing_flush_witness:
  "consumeSseResponse example_platform (stream_of [bytes ''data: a\<newline>\<newline>data: b'']) (Some record_chunks) [] =
     (Inr [JObj [(js ''content'', JStr (js ''a''))], JObj [(js ''content'', JStr (js ''b''))]],
      [JObj [(js ''content'', JStr (js ''a''))], JObj [(js ''content'', JStr (js ''b''))]]) \<and>
   consumeSseResponse example_platform (stream_of [bytes ''data: a\<newline>\<newline>'']) (Some record_chunks) [] =
     (Inr [JObj [(js ''content'', JStr (js ''a''))]], [JObj [(js ''content'', JStr (js ''a''))]])"
proof -
  let ?P = "example_platform"
  let ?a = "JObj [(js ''content'', JStr (js ''a''))] :: int json"
  let ?b = "JObj [(js ''content'', JStr (js ''b''))] :: int json"
  have ok: "ok (stream_of vs :: int response)" for vs
    by (simp add: stream_of_def)
  have body: "body (stream_of vs :: int response) = Some (map ReadChunk vs)" for vs
    by (simp add: stream_of_def)
  have feed1: "feed_text new_decoder [bytes ''data: a\<newline>\<newline>data: b''] =
      (new_decoder\<lparr>bom_seen := True\<rparr>, js ''data: a\<newline>\<newline>data: b'')"
    by (simp add: eval_text eval_decoder)
  have cut1: "cut_records (js ''data: a\<newline>\<newline>data: b'') = ([js ''data: a''], js ''data: b'')"
    by (simp add: cut_records.simps eval_text)
  have feed2: "feed_text new_decoder [bytes ''data: a\<newline>\<newline>''] =
      (new_decoder\<lparr>bom_seen := True\<rparr>, js ''data: a\<newline>\<newline>'')"
    by (simp add: eval_text eval_decoder)
  have cut2: "cut_records (js ''data: a\<newline>\<newline>'') = ([js ''data: a''], [])"
    by (simp add: cut_records.simps eval_text)
  have deca: "decoded ?P (js ''data: a'') = Inr [?a]"
    by (simp add: decoded_def eval_text eval_parse)
  have decb: "decoded ?P (trim (js ''data: b'' @ replace_crlf (decode_flush (new_decoder\<lparr>bom_seen := True\<rparr>)))) =
      Inr [?b]"
    by (simp add: decoded_def eval_text eval_parse eval_decoder)
  have empty: "trim ([] @ replace_crlf (decode_flush (new_decoder\<lparr>bom_seen := True\<rparr>))) = []"
    by (simp add: eval_text eval_decoder)
  have before: "emit_blocks ?P (Some record_chunks) [js ''data: a''] [] [] = (Inr [?a], [?a])"
    by (simp add: emitBlock_eq deca record_chunks_def)
  have first: "consumeSseResponse ?P (stream_of [bytes ''data: a\<newline>\<newline>data: b'']) (Some record_chunks) [] =
      (Inr [?a, ?b], [?a, ?b])"
    using trailing_flush [OF ok body feed1 cut1, of ?P "Some record_chunks" "[]" "[?a]" "[?a]" "[?b]",
        THEN conjunct2, THEN conjunct2, THEN conjunct1] before decb
    by (simp add: record_chunks_def)
  have second: "consumeSseResponse ?P (stream_of [bytes ''data: a\<newline>\<newline>'']) (Some record_chunks) [] =
      (Inr [?a], [?a])"
    using trailing_flush [OF ok body feed2 cut2, of ?P "Some record_chunks" "[]",
        THEN conjunct2, THEN conjunct2, THEN conjunct2] empty before
    by simp
  show ?thesis
    using first second by (rule conjI)
qed

section \<open>A response without a readable body\<close>

text \<open>
  Claim C10. When the response is ok and has no body, or a body that cannot be read
  incrementally, \<open>consumeSseResponse\<close> returns the empty list and leaves the observer
  untouched, and \<open>chatStream\<close> resolves to success with the empty content.
\<close>

theorem no_body_gives_empty:
  assumes "ok response" and "body response = None"
  shows "consumeSseResponse P response onChunk s = (Inr [], s) \<and>
         chatStream P (Inr response) onChunk' u = (ChatSuccess [], u)"
  using assms
  by (simp add: consumeSseResponse_def chatStream_def postSse_def array_join_def)

theorem no_body_gives_empty_witness:
  "consumeSseResponse example_platform
     \<lparr>ok = True, status = 204, statusText = js ''No Content'', body = None, json_result = Inr JNull\<rparr>
     (Some record_chunks) [] = (Inr [], []) \<and>
   chatStream example_platform
     (Inr \<lparr>ok = True, status = 204, statusText = js ''No Content'', body = None, json_result = Inr JNull\<rparr>)
     (Some record_chunks) [] = (ChatSuccess [], [])"
  using no_body_gives_empty [of "\<lparr>ok = True, status = 204, statusText = js ''No Content'', body = None,
      json_result = Inr JNull\<rparr>" example_platform "Some record_chunks" "[]" "Some record_chunks" "[]"]
  by simp

section \<open>What leaves emitBlock\<close>

text \<open>
  When the payload is empty, or when the value to convert fits on the stack,
  \<open>emitBlock\<close> returns normally and appends no event or one; an empty block or an empty
  payload gives no event and leaves the observer untouched; a payload that \<open>JSON.parse\<close>
  rejects gives the event \<open>{content: payload}\<close>. When the value that \<open>JSON.parse\<close> returns
  asks for more activations of \<open>toCamelDeep\<close> than the stack has room for, the
  \<open>RangeError\<close> leaves \<open>emitBlock\<close>, whatever the observer is.
\<close>

lemma emitBlock_within_stack:
  assumes "dataText_of block = [] \<or>
           nesting (case json_parse P (dataText_of block) of
                      Inr v \<Rightarrow> v
                    | Inl e \<Rightarrow> JObj [(js ''content'', JStr (dataText_of block))]) \<le> stack_depth P"
  shows "\<exists>evs s'. emitBlock P onChunk block chunks s = (Inr (chunks @ evs), s') \<and> length evs \<le> 1 \<and>
     (block = [] \<or> dataText_of block = [] \<longrightarrow> evs = [] \<and> s' = s) \<and>
     (dataText_of block \<noteq> [] \<and> isl (json_parse P (dataText_of block)) \<longrightarrow>
        evs = [JObj [(js ''content'', JStr (dataText_of block))]])"
proof -
  have key: "snakeToCamel (js ''content'') = js ''content''"
    by (simp add: js_def is_lower_def)
  have "\<exists>evs. decoded P block = Inr evs \<and> length evs \<le> 1"
    using assms by (auto simp: decoded_def toCamelDeep_eq)
  then obtain evs where evs: "decoded P block = Inr evs" and len: "length evs \<le> 1"
    by blast
  have none: "block = [] \<or> dataText_of block = [] \<longrightarrow> evs = []"
    using evs by (auto simp: decoded_def dataText_of_Nil)
  have fallback: "dataText_of block \<noteq> [] \<and> isl (json_parse P (dataText_of block)) \<longrightarrow>
      evs = [JObj [(js ''content'', JStr (dataText_of block))]]"
    using evs by (auto simp: decoded_def toCamelDeep_eq key isl_def split: if_splits)
  show ?thesis
    apply (rule exI [of _ evs])
    apply (rule exI [of _ "deliver onChunk evs s"])
    using none fallback len
    by (auto simp: emitBlock_eq evs)
qed

lemma emitBlock_beyond_stack:
  assumes "dataText_of block \<noteq> []" and "json_parse P (dataText_of block) = Inr v"
    and "stack_depth P < nesting v"
  shows "emitBlock P onChunk block chunks s = (Inl range_error, s)"
  using assms by (simp add: emitBlock_eq decoded_def toCamelDeep_eq)

text \<open>
  Claim C4. The claim says that the record decoder returns for every input and never
  throws. It does for an empty record, for a payload that is not JSON and for
  \<open>{"a":1}\<close>; it does not for a payload that is JSON nested more deeply than
  \<open>toCamelDeep\<close> has stack for. On a platform with room for three activations, the
  record \<open>data: [[[0]]]\<close> asks for four: \<open>emitBlock\<close> throws the \<open>RangeError\<close>, and
  \<open>consumeSseResponse\<close> rejects with it after the observer was given the record before;
  \<open>data: [[0]]\<close> still fits.
\<close>

theorem deep_payload_leaves_emitBlock:
  "emitBlock shallow_platform (Some record_chunks) (js ''data: [[[0]]]'') [] [] = (Inl range_error, []) \<and>
   emitBlock shallow_platform (Some record_chunks) (js ''data: [[0]]'') [] [] =
     (Inr [JArr [JArr [JNum 0]]], [JArr [JArr [JNum 0]]]) \<and>
   consumeSseResponse shallow_platform (stream_of [bytes ''data: {\"a\":1}\<newline>\<newline>data: [[[0]]]\<newline>\<newline>''])
     (Some record_chunks) [] = (Inl range_error, [JObj [(js ''a'', JNum 1)]])"
proof -
  let ?P = "shallow_platform"
  have ok: "ok (stream_of vs :: int response)" for vs
    by (simp add: stream_of_def)
  have body: "body (stream_of vs :: int response) = Some (map ReadChunk vs)" for vs
    by (simp add: stream_of_def)
  have deep: "decoded ?P (js ''data: [[[0]]]'') = Inl range_error"
    by (simp add: decoded_def shallow_platform_def eval_text eval_parse)
  have flat: "decoded ?P (js ''data: [[0]]'') = Inr [JArr [JArr [JNum 0]]]"
    by (simp add: decoded_def shallow_platform_def eval_text eval_parse)
  have obj: "decoded ?P (js ''data: {\"a\":1}'') = Inr [JObj [(js ''a'', JNum 1)]]"
    by (simp add: decoded_def shallow_platform_def eval_text eval_parse)
  have feed: "feed_text new_decoder [bytes ''data: {\"a\":1}\<newline>\<newline>data: [[[0]]]\<newline>\<newline>''] =
      (new_decoder\<lparr>bom_seen := True\<rparr>, js ''data: {\"a\":1}\<newline>\<newline>data: [[[0]]]\<newline>\<newline>'')"
    by (simp add: eval_text eval_decoder)
  have cut: "cut_records (js ''data: {\"a\":1}\<newline>\<newline>data: [[[0]]]\<newline>\<newline>'') =
      ([js ''data: {\"a\":1}'', js ''data: [[[0]]]''], [])"
    by (simp add: cut_records.simps eval_text)
  have empty: "trim (replace_crlf (decode_flush (new_decoder\<lparr>bom_seen := True\<rparr>))) = []"
    by (simp add: eval_text eval_decoder)
  have blocks: "blocks_of [bytes ''data: {\"a\":1}\<newline>\<newline>data: [[[0]]]\<newline>\<newline>''] =
      [js ''data: {\"a\":1}'', js ''data: [[[0]]]'', []]"
    by (simp only: blocks_of_def feed cut prod.case empty append.simps)
  have first: "emitBlock ?P (Some record_chunks) (js ''data: [[[0]]]'') [] [] = (Inl range_error, [])"
    by (simp add: emitBlock_eq deep)
  have second: "emitBlock ?P (Some record_chunks) (js ''data: [[0]]'') [] [] =
      (Inr [JArr [JArr [JNum 0]]], [JArr [JArr [JNum 0]]])"
    by (simp add: emitBlock_eq flat record_chunks_def)
  have third: "consumeSseResponse ?P (stream_of [bytes ''data: {\"a\":1}\<newline>\<newline>data: [[[0]]]\<newline>\<newline>''])
      (Some record_chunks) [] = (Inl range_error, [JObj [(js ''a'', JNum 1)]])"
    by (simp add: consume_blocks [OF ok body] blocks emitBlock_eq obj deep record_chunks_def)
  show ?thesis
    using first second third by simp
qed

section \<open>The payload of a block\<close>

lemma split_lf_nonempty: "split_lf s \<noteq> []"
  by (induction s) (auto split: list.splits)

lemma split_lf_line: "LF \<notin> set l \<Longrightarrow> split_lf l = [l]"
  by (induction l) auto

lemma split_lf_append: "LF \<notin> set l \<Longrightarrow> split_lf (l @ LF # rest) = l # split_lf rest"
  by (induction l) (auto split: list.splits)

lemma split_lf_join:
  "ls \<noteq> [] \<Longrightarrow> \<forall>l \<in> set ls. LF \<notin> set l \<Longrightarrow> split_lf (join [LF] ls) = ls"
proof (induction ls)
  case Nil
  then show ?case by simp
next
  case (Cons l ls)
  show ?case
  proof (cases ls)
    case Nil
    with Cons.prems show ?thesis by (simp add: split_lf_line)
  next
    case (Cons m ms)
    with Cons.prems Cons.IH show ?thesis
      using split_lf_append [of l "join [LF] (m # ms)"] by simp
  qed
qed

text \<open>
  Claim C3, as amended. For a block made of the lines \<open>ls\<close>, the payload keeps the lines
  that begin with \<open>data:\<close>, removes from each the prefix and all the white space that
  follows it (\<open>trimStart\<close>, not one space only), and joins what is left with line feeds.
\<close>

theorem payload_strips_all_leading_whitespace:
  assumes "ls \<noteq> []" and "\<forall>l \<in> set ls. LF \<notin> set l"
  shows "dataText_of (join [LF] ls) =
           join [LF] (map (\<lambda>l. dropWhile is_ws (drop 5 l)) (filter (startsWith (js ''data:'')) ls)) \<and>
         (\<forall>l \<in> set ls. startsWith (js ''data:'') l \<longrightarrow>
            l = js ''data:'' @ takeWhile is_ws (drop 5 l) @ dropWhile is_ws (drop 5 l))"
proof -
  have "l = js ''data:'' @ takeWhile is_ws (drop 5 l) @ dropWhile is_ws (drop 5 l)"
    if "startsWith (js ''data:'') l" for l
  proof -
    have "length (js ''data:'') = 5"
      by (simp add: js_def)
    with that have "take 5 l = js ''data:''"
      by (simp add: startsWith_def)
    then have "l = js ''data:'' @ drop 5 l"
      by (metis append_take_drop_id)
    then show ?thesis by simp
  qed
  then show ?thesis
    using assms by (simp add: dataText_of_def split_lf_join trimStart_def)
qed

theorem payload_strips_all_leading_whitespace_witness:
  "dataText_of (js ''data:  x\<newline>id: 7\<newline>data:y'') = js ''x\<newline>y''"
proof -
  have ls: "js ''data:  x\<newline>id: 7\<newline>data:y'' = join [LF] [js ''data:  x'', js ''id: 7'', js ''data:y'']"
    by (simp add: js_def LF_def)
  have ne: "[js ''data:  x'', js ''id: 7'', js ''data:y''] \<noteq> []"
    by simp
  have nolf: "\<forall>l \<in> set [js ''data:  x'', js ''id: 7'', js ''data:y'']. LF \<notin> set l"
    by (simp add: js_def LF_def)
  show ?thesis
    using payload_strips_all_leading_whitespace [OF ne nolf, THEN conjunct1]
    unfolding ls [symmetric]
    by (simp add: eval_text)
qed

text \<open>
  Claim C3, as stated, fails: after the prefix of \<open>data:  x\<close> come two spaces, and the
  payload is \<open>x\<close>, where removing at most one space would leave a space before \<open>x\<close>.
\<close>

theorem one_space_counterexample:
  "dataText_of (js ''data:  x'') = js ''x'' \<and> payload_as_specified (js ''data:  x'') = js '' x''"
  by (simp add: payload_as_specified_def strip_one_space_def eval_text)

section \<open>CR LF across two chunks\<close>

text \<open>
  Claim C1, on the stream \<open>data: a\<close>, \<open>data: b\<close> with CR LF line ends. Read as one
  chunk it gives two events. Read as two chunks, the first ending between a CR and its
  LF, it gives a single event with both payloads: the replacement of CR LF runs on each
  decoded chunk alone, so the CR stays in the buffer and hides the blank line.
\<close>

theorem crlf_split_across_chunks:
  "fst (consumeSseResponse example_platform
          (stream_of [bytes ''data: a'' @ [0x0D, 0x0A, 0x0D, 0x0A] @ bytes ''data: b'' @ [0x0D, 0x0A, 0x0D, 0x0A]])
          None ()) =
     Inr [JObj [(js ''content'', JStr (js ''a''))], JObj [(js ''content'', JStr (js ''b''))]] \<and>
   fst (consumeSseResponse example_platform
          (stream_of [bytes ''data: a'' @ [0x0D, 0x0A, 0x0D], [0x0A] @ bytes ''data: b'' @ [0x0D, 0x0A, 0x0D, 0x0A]])
          None ()) =
     Inr [JObj [(js ''content'', JStr (js ''a\<newline>b''))]]"
proof -
  have ok: "ok (stream_of vs :: int response)" for vs
    by (simp add: stream_of_def)
  have body: "body (stream_of vs :: int response) = Some (map ReadChunk vs)" for vs
    by (simp add: stream_of_def)
  have whole: "emit_blocks example_platform None
      (blocks_of [bytes ''data: a'' @ [0x0D, 0x0A, 0x0D, 0x0A] @ bytes ''data: b'' @ [0x0D, 0x0A, 0x0D, 0x0A]])
      [] () =
      (Inr [JObj [(js ''content'', JStr (js ''a''))], JObj [(js ''content'', JStr (js ''b''))]], ())"
    by (simp add: blocks_of_def cut_records.simps emitBlock_eq decoded_def eval_text eval_decoder eval_parse)
  have split: "emit_blocks example_platform None
      (blocks_of [bytes ''data: a'' @ [0x0D, 0x0A, 0x0D], [0x0A] @ bytes ''data: b'' @ [0x0D, 0x0A, 0x0D, 0x0A]])
      [] () =
      (Inr [JObj [(js ''content'', JStr (js ''a\<newline>b''))]], ())"
    by (simp add: blocks_of_def cut_records.simps emitBlock_eq decoded_def eval_text eval_decoder eval_parse)
  show ?thesis
    unfolding consume_blocks [OF ok body] whole split by simp
qed

section \<open>Chunk boundaries in a body without CR\<close>

text \<open>
  The decoder gives a CR for a byte \<open>0x0D\<close> only. So when a body holds no such byte, the
  replacement of CR LF changes nothing, and the events do not depend on how the body is
  cut into chunks, also inside the blank line or inside a character of several bytes.
\<close>

lemma decoder_ok_new: "decoder_ok new_decoder"
  by (simp add: decoder_ok_def new_decoder_def)

lemma decoder_ok_bom: "decoder_ok (d\<lparr>bom_seen := x\<rparr>) = decoder_ok d"
  by (simp add: decoder_ok_def)

lemma utf8_lead_ok:
  assumes "bytes_needed d = 0" and "bytes_seen d = 0" and "lower_boundary d = 0x80"
    and "upper_boundary d = 0xBF" and "b \<noteq> 13" and "utf8_lead d b = (d', cps)"
  shows "decoder_ok d' \<and> (\<forall>cp \<in> set cps. cp \<noteq> 13 \<and> cp < 2097152)"
proof -
  consider "b \<le> 0x7F" | "0xC2 \<le> b \<and> b \<le> 0xDF" | "0xE0 \<le> b \<and> b \<le> 0xEF" | "0xF0 \<le> b \<and> b \<le> 0xF4"
    | "\<not> b \<le> 0x7F \<and> \<not> (0xC2 \<le> b \<and> b \<le> 0xDF) \<and> \<not> (0xE0 \<le> b \<and> b \<le> 0xEF) \<and> \<not> (0xF0 \<le> b \<and> b \<le> 0xF4)"
    by blast
  then show ?thesis
  proof cases
    case 1
    with assms show ?thesis
      by (auto simp: utf8_lead_def decoder_ok_def)
  next
    case 2
    then have "2 \<le> b mod 32" "b mod 32 < 32"
      by presburger+
    with 2 assms show ?thesis
      by (auto simp: utf8_lead_def decoder_ok_def)
  next
    case 3
    then have "b mod 16 < 16" "b \<noteq> 0xE0 \<longrightarrow> 1 \<le> b mod 16"
      by presburger+
    with 3 assms show ?thesis
      by (auto simp: utf8_lead_def decoder_ok_def split: if_splits)
  next
    case 4
    then have "b mod 8 < 8" "b \<noteq> 0xF0 \<longrightarrow> 1 \<le> b mod 8"
      by presburger+
    with 4 assms show ?thesis
      by (auto simp: utf8_lead_def decoder_ok_def split: if_splits)
  next
    case 5
    with assms show ?thesis
      by (auto simp: utf8_lead_def decoder_ok_def)
  qed
qed


lemma utf8_handler_ok:
  assumes "decoder_ok d" and "b \<noteq> 13" and "utf8_handler d b = (d', cps)"
  shows "decoder_ok d' \<and> (\<forall>cp \<in> set cps. cp \<noteq> 13 \<and> cp < 2097152)"
proof (cases "bytes_needed d = 0")
  case True
  with assms show ?thesis
    using utf8_lead_ok [of d b d' cps] by (auto simp: utf8_handler_def decoder_ok_def)
next
  case False
  with assms(1) have open_seq: "bytes_seen d < bytes_needed d" "upper_boundary d \<le> 0xBF"
    "(bytes_needed d - bytes_seen d = 1 \<and> code_point d < 32768) \<or>
     (bytes_needed d - bytes_seen d = 2 \<and> code_point d < 512) \<or>
     (bytes_needed d - bytes_seen d = 3 \<and> code_point d < 8)"
    "1 \<le> code_point d \<or> (bytes_seen d = 0 \<and> 2 \<le> bytes_needed d \<and> 0x90 \<le> lower_boundary d)"
    by (auto simp: decoder_ok_def)
  show ?thesis
  proof (cases "b < lower_boundary d \<or> upper_boundary d < b")
    case True
    obtain d1 out where lead: "utf8_lead (reset_sequence d) b = (d1, out)"
      by (cases "utf8_lead (reset_sequence d) b")
    have "decoder_ok d1 \<and> (\<forall>cp \<in> set out. cp \<noteq> 13 \<and> cp < 2097152)"
      by (rule utf8_lead_ok [OF _ _ _ _ assms(2) lead]) (simp_all add: reset_sequence_def)
    moreover from assms(3) False True lead have "d' = d1" "cps = 0xFFFD # out"
      by (simp_all add: utf8_handler_def)
    ultimately show ?thesis by simp
  next
    case inside: False
    let ?cp = "code_point d * 64 + b mod 64"
    have low: "b mod 64 < 64" by simp
    show ?thesis
    proof (cases "bytes_seen d + 1 = bytes_needed d")
      case True
      with open_seq have "1 \<le> code_point d" "code_point d < 32768"
        by auto
      with low have "?cp \<noteq> 13" "?cp < 2097152"
        by linarith+
      moreover from assms(3) False inside True have "d' = reset_sequence (d\<lparr>code_point := ?cp,
          bytes_seen := bytes_seen d + 1, lower_boundary := 0x80, upper_boundary := 0xBF\<rparr>)"
        and "cps = [?cp]"
        by (simp_all add: utf8_handler_def Let_def)
      ultimately show ?thesis
        by (simp add: decoder_ok_def reset_sequence_def)
    next
      case more: False
      from assms(3) False inside more have d': "d' = d\<lparr>code_point := ?cp,
          bytes_seen := bytes_seen d + 1, lower_boundary := 0x80, upper_boundary := 0xBF\<rparr>"
        and "cps = []"
        by (simp_all add: utf8_handler_def Let_def)
      have one: "1 \<le> ?cp"
      proof (cases "1 \<le> code_point d")
        case True
        then show ?thesis by linarith
      next
        case False
        with open_seq(4) have "0x90 \<le> lower_boundary d" by simp
        with inside open_seq(2) have "0x90 \<le> b" "b \<le> 0xBF" by simp_all
        then have "16 \<le> b mod 64" by presburger
        then show ?thesis by linarith
      qed
      from open_seq(3) more open_seq(1) low have bound:
        "(bytes_needed d - (bytes_seen d + 1) = 1 \<and> ?cp < 32768) \<or>
         (bytes_needed d - (bytes_seen d + 1) = 2 \<and> ?cp < 512)"
        by auto
      show ?thesis
        using one bound open_seq(1) more \<open>cps = []\<close>
        by (auto simp: d' decoder_ok_def)
    qed
  qed
qed


lemma utf16_no_cr:
  assumes "cp \<noteq> 13" and "cp < 2097152"
  shows "CR \<notin> set (utf16 cp)"
proof -
  have small: "(of_nat n :: 16 word) \<noteq> 13" if "n \<noteq> 13" and "n < 65536" for n
  proof
    assume "(of_nat n :: 16 word) = 13"
    then have "unat (of_nat n :: 16 word) = unat (13 :: 16 word)"
      by simp
    with that show False
      by (simp add: unat_of_nat)
  qed
  show ?thesis
  proof (cases "cp < 0x10000")
    case True
    with assms small [of cp] show ?thesis
      by (simp add: utf16_def CR_def)
  next
    case False
    define hi where "hi = 0xD800 + (cp - 0x10000) div 0x400"
    define lo where "lo = 0xDC00 + (cp - 0x10000) mod 0x400"
    from assms False have "hi \<noteq> 13" "hi < 65536" "lo \<noteq> 13" "lo < 65536"
      by (simp_all add: hi_def lo_def)
    then have "(of_nat hi :: 16 word) \<noteq> 13" "(of_nat lo :: 16 word) \<noteq> 13"
      using small by blast+
    moreover from False have "utf16 cp = [of_nat hi, of_nat lo]"
      by (simp only: utf16_def hi_def lo_def if_False)
    ultimately show ?thesis
      by (simp add: CR_def)
  qed
qed

lemma serialize_no_cr:
  "\<forall>cp \<in> set cps. cp \<noteq> 13 \<and> cp < 2097152 \<Longrightarrow> CR \<notin> set (snd (serialize seen cps))"
proof (induction cps arbitrary: seen)
  case Nil
  then show ?case by simp
next
  case (Cons cp cps)
  obtain seen' out where rest: "serialize True cps = (seen', out)"
    by (cases "serialize True cps")
  from Cons.prems have "\<forall>cp \<in> set cps. cp \<noteq> 13 \<and> cp < 2097152"
    by simp
  from Cons.IH [OF this, of True] rest have "CR \<notin> set out"
    by simp
  moreover from Cons.prems have "CR \<notin> set (utf16 cp)"
    by (simp add: utf16_no_cr)
  ultimately show ?case
    by (simp add: rest)
qed

lemma decode_stream_no_cr:
  "decoder_ok d \<Longrightarrow> 0x0D \<notin> set bs \<Longrightarrow>
   decoder_ok (fst (decode_stream d bs)) \<and> CR \<notin> set (snd (decode_stream d bs))"
proof (induction bs arbitrary: d)
  case Nil
  then show ?case by simp
next
  case (Cons b bs)
  obtain d1 cps where step: "utf8_handler d (unat b) = (d1, cps)"
    by (cases "utf8_handler d (unat b)")
  obtain seen out where ser: "serialize (bom_seen d1) cps = (seen, out)"
    by (cases "serialize (bom_seen d1) cps")
  from Cons.prems have "b \<noteq> 0x0D" by auto
  have "unat b \<noteq> 13"
  proof
    assume "unat b = 13"
    then have "(of_nat (unat b) :: byte) = of_nat 13"
      by (simp only:)
    with \<open>b \<noteq> 0x0D\<close> show False
      by simp
  qed
  from utf8_handler_ok [OF Cons.prems(1) this step]
  have ok1: "decoder_ok d1" and cps: "\<forall>cp \<in> set cps. cp \<noteq> 13 \<and> cp < 2097152"
    by simp_all
  from serialize_no_cr [OF cps, of "bom_seen d1"] ser have out: "CR \<notin> set out"
    by simp
  from ok1 have "decoder_ok (d1\<lparr>bom_seen := seen\<rparr>)"
    by (simp add: decoder_ok_bom)
  moreover from Cons.prems have "0x0D \<notin> set bs" by simp
  ultimately have ih: "decoder_ok (fst (decode_stream (d1\<lparr>bom_seen := seen\<rparr>) bs)) \<and>
      CR \<notin> set (snd (decode_stream (d1\<lparr>bom_seen := seen\<rparr>) bs))"
    by (rule Cons.IH)
  obtain d2 rest where tail: "decode_stream (d1\<lparr>bom_seen := seen\<rparr>) bs = (d2, rest)"
    by (cases "decode_stream (d1\<lparr>bom_seen := seen\<rparr>) bs")
  with ih out show ?case
    by (simp add: step ser)
qed

lemma replace_crlf_id: "CR \<notin> set t \<Longrightarrow> replace_crlf t = t"
  by (induction t rule: replace_crlf.induct) auto

lemma decode_stream_append:
  "decode_stream d (xs @ ys) =
     (case decode_stream d xs of (d1, t1) \<Rightarrow>
        (case decode_stream d1 ys of (d2, t2) \<Rightarrow> (d2, t1 @ t2)))"
  by (induction xs arbitrary: d) (auto split: prod.splits)

lemma feed_text_cr_free:
  "decoder_ok d \<Longrightarrow> 0x0D \<notin> set (concat vs) \<Longrightarrow> feed_text d vs = decode_stream d (concat vs)"
proof (induction vs arbitrary: d)
  case Nil
  then show ?case by simp
next
  case (Cons v vs)
  obtain d1 t where dec: "decode_stream d v = (d1, t)"
    by (cases "decode_stream d v")
  from Cons.prems have "0x0D \<notin> set v" "0x0D \<notin> set (concat vs)" by simp_all
  with decode_stream_no_cr [OF Cons.prems(1), of v] dec have "decoder_ok d1" "CR \<notin> set t"
    by simp_all
  with Cons.IH [of d1] \<open>0x0D \<notin> set (concat vs)\<close> show ?case
    by (simp add: dec decode_stream_append replace_crlf_id)
qed

lemma blocks_of_cr_free:
  assumes "concat vs = concat ws" and "0x0D \<notin> set (concat vs)"
  shows "blocks_of vs = blocks_of ws"
  using assms by (simp add: blocks_of_def feed_text_cr_free decoder_ok_new)

lemma events_of_cr_free:
  assumes "concat vs = concat ws" and "0x0D \<notin> set (concat vs)"
  shows "events_of P vs = events_of P ws"
  by (simp add: events_of_def blocks_of_cr_free [OF assms])

lemma consume_cr_free:
  assumes "ok r1" and "body r1 = Some (map ReadChunk vs)"
    and "ok r2" and "body r2 = Some (map ReadChunk ws)"
    and "concat vs = concat ws" and "0x0D \<notin> set (concat vs)"
  shows "consumeSseResponse P r1 cb s = consumeSseResponse P r2 cb s"
  by (simp add: consume_blocks [OF assms(1,2)] consume_blocks [OF assms(3,4)]
        blocks_of_cr_free [OF assms(5,6)])

section \<open>Keys in camel case\<close>

lemma upper_of_lower: "is_lower c \<Longrightarrow> \<not> is_lower (toUpperCase c) \<and> toUpperCase c \<noteq> 0x5F"
  unfolding is_lower_def toUpperCase_def by (simp add: word_le_nat_alt unat_sub) unat_arith

lemma snakeToCamel_head:
  "snakeToCamel (c # cs) = c # snakeToCamel cs \<or>
   (\<exists>d ds. cs = d # ds \<and> c = 0x5F \<and> is_lower d \<and> snakeToCamel (c # cs) = toUpperCase d # snakeToCamel ds)"
  by (cases cs) auto

lemma snake_free_Cons:
  "snake_free ys \<Longrightarrow> (\<And>y ys'. ys = y # ys' \<Longrightarrow> \<not> (x = 0x5F \<and> is_lower y)) \<Longrightarrow> snake_free (x # ys)"
  by (cases ys) auto

lemma snake_free_snakeToCamel: "snake_free (snakeToCamel k)"
proof (induction k rule: snakeToCamel.induct)
  case (1 u c cs)
  show ?case
  proof (cases "u = 0x5F \<and> is_lower c")
    case True
    with "1.IH"(1) have "snake_free (snakeToCamel cs)" by simp
    then have "snake_free (toUpperCase c # snakeToCamel cs)"
      using upper_of_lower [of c] True by (intro snake_free_Cons) auto
    with True show ?thesis by simp
  next
    case False
    with "1.IH"(2) have ih: "snake_free (snakeToCamel (c # cs))" by simp
    have "snake_free (u # snakeToCamel (c # cs))"
    proof (rule snake_free_Cons [OF ih])
      fix y ys'
      assume eq: "snakeToCamel (c # cs) = y # ys'"
      from snakeToCamel_head [of c cs] show "\<not> (u = 0x5F \<and> is_lower y)"
      proof
        assume "snakeToCamel (c # cs) = c # snakeToCamel cs"
        with eq have "y = c" by simp
        with False show ?thesis by simp
      next
        assume "\<exists>d ds. cs = d # ds \<and> c = 0x5F \<and> is_lower d \<and>
          snakeToCamel (c # cs) = toUpperCase d # snakeToCamel ds"
        then obtain d ds where "is_lower d" and "snakeToCamel (c # cs) = toUpperCase d # snakeToCamel ds"
          by blast
        with eq have "y = toUpperCase d" and "is_lower d" by simp_all
        then show ?thesis using upper_of_lower [of d] by simp
      qed
    qed
    with False show ?thesis by auto
  qed
qed simp_all

lemma keys_obj_set_list: "set (map fst (obj_set k v kvs)) = insert k (set (map fst kvs))"
proof (induction kvs)
  case Nil
  then show ?case by simp
next
  case (Cons p kvs)
  then show ?case
    by (cases p) (simp del: set_map, auto simp del: set_map)
qed

lemma keys_obj_set: "fst ` set (obj_set k v kvs) = insert k (fst ` set kvs)"
  using keys_obj_set_list [of k v kvs] by simp

lemma set_obj_set: "set (obj_set k v kvs) \<subseteq> insert (k, v) (set kvs)"
  by (induction kvs) (auto split: if_splits)

lemma keys_assign_entries: "fst ` set (assign_entries out kvs) = fst ` set out \<union> fst ` set kvs"
  by (induction out kvs rule: assign_entries.induct) (auto simp: keys_obj_set)

lemma set_assign_entries: "set (assign_entries out kvs) \<subseteq> set out \<union> set kvs"
proof (induction out kvs rule: assign_entries.induct)
  case (1 out)
  then show ?case by simp
next
  case (2 out k v kvs)
  then show ?case using set_obj_set [of k v out] by auto
qed

lemma obj_set_fresh: "k \<notin> fst ` set kvs \<Longrightarrow> obj_set k v kvs = kvs @ [(k, v)]"
  by (induction kvs) auto

lemma assign_entries_distinct:
  "distinct (map fst kvs) \<Longrightarrow> fst ` set out \<inter> fst ` set kvs = {} \<Longrightarrow>
   assign_entries out kvs = out @ kvs"
proof (induction out kvs rule: assign_entries.induct)
  case (1 out)
  then show ?case by simp
next
  case (2 out k v kvs)
  from "2.prems" have fresh: "k \<notin> fst ` set out" by auto
  from "2.prems" have "distinct (map fst kvs)" and "fst ` set (obj_set k v out) \<inter> fst ` set kvs = {}"
    by (auto simp: keys_obj_set)
  from "2.IH" [OF this] show ?case
    by (simp add: obj_set_fresh [OF fresh])
qed

lemma keys_deep_JObj: "keys_deep (JObj kvs) = fst ` set kvs \<union> (\<Union>p \<in> set kvs. keys_deep (snd p))"
  by auto

lemma keys_deep_camel_keys: "keys_deep (camel_keys v) \<subseteq> snakeToCamel ` keys_deep v"
proof (induction v)
  case (JArr xs)
  then show ?case by fastforce
next
  case (JObj kvs)
  let ?new = "map (map_prod snakeToCamel camel_keys) kvs"
  let ?out = "assign_entries [] ?new"
  show ?case
  proof
    fix x
    assume "x \<in> keys_deep (camel_keys (JObj kvs))"
    then have "x \<in> fst ` set ?out \<or> (\<exists>p \<in> set ?out. x \<in> keys_deep (snd p))"
      by (simp only: camel_keys.simps keys_deep_JObj) blast
    then show "x \<in> snakeToCamel ` keys_deep (JObj kvs)"
    proof
      assume "x \<in> fst ` set ?out"
      then have "x \<in> fst ` set ?new"
        by (simp add: keys_assign_entries)
      then obtain p where "p \<in> set kvs" and "x = snakeToCamel (fst p)"
        by auto
      then have "fst p \<in> keys_deep (JObj kvs)"
        unfolding keys_deep_JObj by blast
      with \<open>x = snakeToCamel (fst p)\<close> show ?thesis by blast
    next
      assume "\<exists>p \<in> set ?out. x \<in> keys_deep (snd p)"
      then obtain q where "q \<in> set ?out" and x: "x \<in> keys_deep (snd q)"
        by blast
      with set_assign_entries [of "[]" ?new] have "q \<in> set ?new"
        by auto
      then obtain p where p: "p \<in> set kvs" and q: "snd q = camel_keys (snd p)"
        by auto
      have "snd p \<in> Basic_BNFs.snds p"
        by (cases p) simp
      from JObj.IH [OF p this] x q obtain y where "y \<in> keys_deep (snd p)" and "x = snakeToCamel y"
        by auto
      moreover from p \<open>y \<in> keys_deep (snd p)\<close> have "y \<in> keys_deep (JObj kvs)"
        unfolding keys_deep_JObj by blast
      ultimately show ?thesis by blast
    qed
  qed
qed simp_all

lemma snake_free_keys: "k \<in> keys_deep (camel_keys w) \<Longrightarrow> snake_free k"
  using keys_deep_camel_keys [of w] snake_free_snakeToCamel by auto

lemma snake_free_unchanged: "snake_free k \<Longrightarrow> snakeToCamel k = k"
  by (induction k rule: snakeToCamel.induct) auto

lemma snake_case_tail: "snake_case (c # cs) \<Longrightarrow> snake_case cs"
  by (cases cs) auto

lemma snake_case_camel: "snake_case k \<Longrightarrow> camel_case (snakeToCamel k)"
proof (induction k rule: snakeToCamel.induct)
  case (1 u c cs)
  show ?case
  proof (cases "u = 0x5F \<and> is_lower c")
    case True
    from "1.prems" have "snake_case cs"
      by (auto dest: snake_case_tail)
    with "1.IH"(1) True have "camel_case (snakeToCamel cs)" by simp
    with True upper_of_lower [of c] show ?thesis
      by (simp add: camel_case_def)
  next
    case False
    with "1.prems" have "u \<noteq> 0x5F" and "snake_case (c # cs)" by auto
    with "1.IH"(2) False show ?thesis
      by (auto simp: camel_case_def)
  qed
qed (simp_all add: camel_case_def)

text \<open>
  Claim C9, as amended. In every value that \<open>toCamelDeep\<close> returns, at every depth and
  also inside arrays, each key is \<open>snakeToCamel\<close> of a key of the value it was given, and
  no underscore directly before a lower-case ASCII letter is left in it. A key in which
  every underscore stands directly before such a letter comes out without an underscore;
  a key without such a pair comes out as it went in. An array is converted element by element,
  an object whose converted keys are distinct is the same object with each key
  converted, and every event \<open>emitBlock\<close> delivers has keys of this kind only.
\<close>

theorem keys_converted:
  assumes "toCamelDeep room v = Inr w"
  shows "w = camel_keys v \<and>
         (\<forall>k \<in> keys_deep w. snake_free k \<and> k \<in> snakeToCamel ` keys_deep v) \<and>
         (\<forall>k. snake_case k \<longrightarrow> camel_case (snakeToCamel k)) \<and>
         (\<forall>k. snake_free k \<longrightarrow> snakeToCamel k = k) \<and>
         camel_keys (JArr xs) = JArr (map camel_keys xs) \<and>
         (distinct (map (\<lambda>p. snakeToCamel (fst p)) kvs) \<longrightarrow>
            camel_keys (JObj kvs) = JObj (map (\<lambda>p. (snakeToCamel (fst p), camel_keys (snd p))) kvs)) \<and>
         (\<forall>evs. decoded P block = Inr evs \<longrightarrow> (\<forall>ev \<in> set evs. \<forall>k \<in> keys_deep ev. snake_free k))"
proof -
  have w: "w = camel_keys v"
    using assms by (simp add: toCamelDeep_eq split: if_splits)
  have renamed: "camel_keys (JObj kvs) = JObj (map (\<lambda>p. (snakeToCamel (fst p), camel_keys (snd p))) kvs)"
    if "distinct (map (\<lambda>p. snakeToCamel (fst p)) kvs)"
  proof -
    have same: "map (map_prod snakeToCamel camel_keys) kvs = map (\<lambda>p. (snakeToCamel (fst p), camel_keys (snd p))) kvs"
      by (simp add: map_prod_def case_prod_unfold)
    have "distinct (map fst (map (map_prod snakeToCamel camel_keys) kvs))"
      using that by (simp add: comp_def)
    then have "assign_entries [] (map (map_prod snakeToCamel camel_keys) kvs) = map (map_prod snakeToCamel camel_keys) kvs"
      using assign_entries_distinct [of "map (map_prod snakeToCamel camel_keys) kvs" "[]"] by simp
    then show ?thesis by (simp add: same)
  qed
  have events: "snake_free k" if "decoded P block = Inr evs" and "ev \<in> set evs" and "k \<in> keys_deep ev"
    for evs ev k
    using that snake_free_keys by (auto simp: decoded_def toCamelDeep_eq split: if_splits)
  have keys: "\<forall>k \<in> keys_deep w. snake_free k \<and> k \<in> snakeToCamel ` keys_deep v"
    using snake_free_keys [of _ v] keys_deep_camel_keys [of v] by (auto simp: w)
  show ?thesis
    using w keys renamed events by (auto simp: snake_case_camel snake_free_unchanged)
qed

theorem keys_converted_witness:
  "toCamelDeep 4 (JObj [(js ''tool_name'', JStr (js ''search'')),
                        (js ''total_usage'', JArr [JObj [(js ''input_tokens'', JNum (1::int))]])]) =
     Inr (JObj [(js ''toolName'', JStr (js ''search'')),
                (js ''totalUsage'', JArr [JObj [(js ''inputTokens'', JNum 1)]])]) \<and>
   snake_case (js ''tool_name'') \<and> camel_case (snakeToCamel (js ''tool_name'')) \<and>
   snake_free (js ''TOOL_NAME'') \<and> snakeToCamel (js ''TOOL_NAME'') = js ''TOOL_NAME'' \<and>
   snake_free (js ''toolName'') \<and> snake_free (js ''totalUsage'') \<and> snake_free (js ''inputTokens'')"
proof -
  let ?v = "JObj [(js ''tool_name'', JStr (js ''search'')),
                  (js ''total_usage'', JArr [JObj [(js ''input_tokens'', JNum (1::int))]])]"
  let ?w = "JObj [(js ''toolName'', JStr (js ''search'')),
                  (js ''totalUsage'', JArr [JObj [(js ''inputTokens'', JNum (1::int))]])]"
  have keys: "snakeToCamel (js ''tool_name'') = js ''toolName''"
    "snakeToCamel (js ''total_usage'') = js ''totalUsage''"
    "snakeToCamel (js ''input_tokens'') = js ''inputTokens''"
    by (simp_all add: js_def is_lower_def toUpperCase_def)
  have different: "js ''toolName'' \<noteq> js ''totalUsage''"
    by (simp add: js_def)
  have run: "toCamelDeep 4 ?v = Inr ?w"
    by (simp add: toCamelDeep_eq keys different)
  have wire: "snake_case (js ''tool_name'')"
    by (simp add: js_def is_lower_def)
  have upper: "snake_free (js ''TOOL_NAME'')"
    by (simp add: js_def is_lower_def)
  note all = keys_converted [OF run, of "[]" "[]" example_platform "[]"]
  from all have "\<forall>k \<in> keys_deep ?w. snake_free k \<and> k \<in> snakeToCamel ` keys_deep ?v"
    by (elim conjE)
  then have host: "snake_free (js ''toolName'')" "snake_free (js ''totalUsage'')"
    "snake_free (js ''inputTokens'')"
    by simp_all
  from all have "\<forall>k. snake_case k \<longrightarrow> camel_case (snakeToCamel k)"
    by (elim conjE)
  with wire have camel: "camel_case (snakeToCamel (js ''tool_name''))"
    by blast
  from all have "\<forall>k. snake_free k \<longrightarrow> snakeToCamel k = k"
    by (elim conjE)
  with upper have same: "snakeToCamel (js ''TOOL_NAME'') = js ''TOOL_NAME''"
    by blast
  show ?thesis
    by (intro conjI) (fact run, fact wire, fact camel, fact upper, fact same, fact host(1), fact host(2),
        fact host(3))
qed

text \<open>
  Claim C9, as stated, fails: a key in upper case, a key with a digit after the
  underscore and a key with two underscores in a row reach the observer with an
  underscore, side by side, so the keys are not all in camel case and not in one casing.
\<close>

theorem keys_left_with_underscore:
  "emitBlock example_platform None (js ''data: {\"TOOL_NAME\":1,\"top_10\":2,\"a__b\":3}'') [] () =
     (Inr [JObj [(js ''TOOL_NAME'', JNum 1), (js ''top_10'', JNum 2), (js ''a_B'', JNum 3)]], ()) \<and>
   \<not> camel_case (js ''TOOL_NAME'') \<and> \<not> camel_case (js ''top_10'') \<and> \<not> camel_case (js ''a_B'')"
proof -
  have payload: "dataText_of (js ''data: {\"TOOL_NAME\":1,\"top_10\":2,\"a__b\":3}'') =
      js ''{\"TOOL_NAME\":1,\"top_10\":2,\"a__b\":3}''"
    by (simp add: eval_text)
  have parsed: "json_parse example_platform (js ''{\"TOOL_NAME\":1,\"top_10\":2,\"a__b\":3}'') =
      Inr (JObj [(js ''TOOL_NAME'', JNum 1), (js ''top_10'', JNum 2), (js ''a__b'', JNum 3)])"
    by (simp add: eval_parse eval_text)
  have keys: "snakeToCamel (js ''TOOL_NAME'') = js ''TOOL_NAME''"
    "snakeToCamel (js ''top_10'') = js ''top_10''"
    "snakeToCamel (js ''a__b'') = js ''a_B''"
    by (simp_all add: js_def is_lower_def toUpperCase_def)
  have different: "js ''TOOL_NAME'' \<noteq> js ''top_10''" "js ''TOOL_NAME'' \<noteq> js ''a_B''"
    "js ''top_10'' \<noteq> js ''a_B''"
    by (simp_all add: js_def)
  have depth: "stack_depth example_platform = 10000"
    by (simp add: example_platform_def)
  have event: "decoded example_platform (js ''data: {\"TOOL_NAME\":1,\"top_10\":2,\"a__b\":3}'') =
      Inr [JObj [(js ''TOOL_NAME'', JNum 1), (js ''top_10'', JNum 2), (js ''a_B'', JNum 3)]]"
    by (simp add: decoded_def payload parsed depth toCamelDeep_eq keys different)
       (simp add: js_def)
  have under: "\<not> camel_case (js ''TOOL_NAME'')" "\<not> camel_case (js ''top_10'')" "\<not> camel_case (js ''a_B'')"
    by (simp_all add: camel_case_def js_def)
  show ?thesis
    using under by (simp add: emitBlock_eq event)
qed

section \<open>The aggregate of an agent run\<close>

lemma emit_blocks_delivers:
  "emit_blocks P cb bs chunks s = (Inr chunks', s') \<Longrightarrow>
   \<exists>evs. chunks' = chunks @ evs \<and> s' = deliver cb evs s"
proof (induction bs arbitrary: chunks s)
  case Nil
  then show ?case by simp
next
  case (Cons b bs)
  from Cons.prems obtain evs where dec: "decoded P b = Inr evs"
    by (cases "decoded P b") (auto simp: emitBlock_eq)
  with Cons.prems have "emit_blocks P cb bs (chunks @ evs) (deliver cb evs s) = (Inr chunks', s')"
    by (simp add: emitBlock_eq)
  from Cons.IH [OF this] obtain evs' where "chunks' = (chunks @ evs) @ evs'"
    and "s' = deliver cb evs' (deliver cb evs s)"
    by blast
  then have "chunks' = chunks @ (evs @ evs') \<and> s' = deliver cb (evs @ evs') s"
    by (simp add: deliver_append)
  then show ?case by blast
qed

lemma read_loop_delivers:
  "read_loop P cb reads d b chunks s = (Inr (d', b', chunks'), s') \<Longrightarrow>
   \<exists>evs. chunks' = chunks @ evs \<and> s' = deliver cb evs s"
proof (induction reads arbitrary: d b chunks s)
  case Nil
  then show ?case by simp
next
  case (Cons r reads)
  show ?case
  proof (cases r)
    case (ReadChunk v)
    obtain d1 t where dec: "decode_stream d v = (d1, t)"
      by (cases "decode_stream d v")
    obtain bs rest where cut: "cut_records (b @ replace_crlf t) = (bs, rest)"
      by (cases "cut_records (b @ replace_crlf t)")
    obtain r1 s1 where emit: "emit_blocks P cb bs chunks s = (r1, s1)"
      by (cases "emit_blocks P cb bs chunks s")
    from Cons.prems obtain chunks1 where r1: "r1 = Inr chunks1"
      by (cases r1) (auto simp: ReadChunk dec cut frame_loop_eq emit)
    from emit_blocks_delivers [OF emit [unfolded r1]] obtain evs1 where
      first: "chunks1 = chunks @ evs1" "s1 = deliver cb evs1 s"
      by blast
    from Cons.prems have "read_loop P cb reads d1 rest chunks1 s1 = (Inr (d', b', chunks'), s')"
      by (simp add: ReadChunk dec cut frame_loop_eq emit r1)
    from Cons.IH [OF this] obtain evs where "chunks' = chunks1 @ evs" and "s' = deliver cb evs s1"
      by blast
    with first have "chunks' = chunks @ (evs1 @ evs) \<and> s' = deliver cb (evs1 @ evs) s"
      by (simp add: deliver_append)
    then show ?thesis by blast
  next
    case (ReadThrows e)
    with Cons.prems show ?thesis by simp
  qed
qed

lemma postSse_delivers:
  assumes "postSse P fetched cb s = (Inr chunks, s')"
  shows "s' = deliver cb chunks s"
proof (cases fetched)
  case (Inl e)
  with assms show ?thesis by (simp add: postSse_def)
next
  case (Inr response)
  with assms have c: "consumeSseResponse P response cb s = (Inr chunks, s')"
    by (simp add: postSse_def)
  show ?thesis
  proof (cases "body response")
    case None
    with c show ?thesis
      by (auto simp: consumeSseResponse_def split: if_splits)
  next
    case (Some reads)
    from c have okr: "ok response"
      by (auto simp: consumeSseResponse_def split: if_splits)
    obtain r s1 where loop: "read_loop P cb reads new_decoder [] [] s = (r, s1)"
      by (cases "read_loop P cb reads new_decoder [] [] s")
    with c okr Some obtain d b cs where r: "r = Inr (d, b, cs)"
      by (cases r) (auto simp: consumeSseResponse_def)
    from read_loop_delivers [OF loop [unfolded r]] obtain evs where
      cs: "cs = evs" and s1: "s1 = deliver cb evs s"
      by auto
    from c okr Some loop r show ?thesis
      by (auto simp: consumeSseResponse_def emitBlock_eq cs s1 deliver_append split: sum.splits)
  qed
qed

lemma names_differ:
  "js ''content'' \<noteq> js ''tool_start''" "js ''content'' \<noteq> js ''done''" "js ''tool_start'' \<noteq> js ''done''"
  by (simp_all add: js_def)

lemma selected_type: "selected P chunk t k = Some v \<Longrightarrow> get_prop chunk (js ''type'') = Some (JStr t)"
  by (simp add: selected_def split: if_splits)

lemma selected_other: "selected P chunk t k = Some v \<Longrightarrow> t' \<noteq> t \<Longrightarrow> selected P chunk t' k' = None"
  by (simp add: selected_def split: if_splits)

lemma selected_null: "selected P JNull t k = None"
  by (simp add: selected_def get_prop_def)

lemma agent_callback_fields:
  "content (snd (agent_callback P onChunk chunk st)) = content st @ content_piece P chunk"
  "toolsUsed (snd (agent_callback P onChunk chunk st)) =
     (case selected P chunk (js ''tool_start'') (js ''toolName'') of
        Some v \<Rightarrow> set_add (entry_of (delivered st) v) (toolsUsed st)
      | None \<Rightarrow> toolsUsed st)"
  "usage (snd (agent_callback P onChunk chunk st)) =
     (case selected P chunk (js ''done'') (js ''usage'') of Some v \<Rightarrow> v | None \<Rightarrow> usage st)"
  "delivered (snd (agent_callback P onChunk chunk st)) = delivered st + 1"
proof -
  let ?r = "snd (agent_callback P onChunk chunk st)"
  let ?st = "st\<lparr>delivered := delivered st + 1\<rparr>"
  have user: "content (snd (call_onChunk onChunk chunk x)) = content x \<and>
      toolsUsed (snd (call_onChunk onChunk chunk x)) = toolsUsed x \<and>
      usage (snd (call_onChunk onChunk chunk x)) = usage x \<and>
      delivered (snd (call_onChunk onChunk chunk x)) = delivered x" for x :: "('a, 'b) agent_vars"
    by (simp add: call_onChunk_def split: option.split prod.split)
  have "content ?r = content st @ content_piece P chunk \<and>
        toolsUsed ?r =
          (case selected P chunk (js ''tool_start'') (js ''toolName'') of
             Some v \<Rightarrow> set_add (entry_of (delivered st) v) (toolsUsed st)
           | None \<Rightarrow> toolsUsed st) \<and>
        usage ?r =
          (case selected P chunk (js ''done'') (js ''usage'') of Some v \<Rightarrow> v | None \<Rightarrow> usage st) \<and>
        delivered ?r = delivered st + 1"
  proof (cases "chunk = JNull")
    case True
    then show ?thesis
      by (simp add: agent_callback_def Let_def content_piece_def selected_null)
  next
    case False
    show ?thesis
    proof (cases "selected P chunk (js ''content'') (js ''content'')")
      case None
      then have "add_content P chunk ?st = Inr ?st"
        by (simp add: add_content_def)
      then show ?thesis
        using False None
        by (simp add: agent_callback_def Let_def user content_piece_def add_tool_def set_usage_def
              split: option.split)
    next
      case (Some v)
      have none: "selected P chunk (js ''tool_start'') (js ''toolName'') = None"
        "selected P chunk (js ''done'') (js ''usage'') = None"
        using selected_other [OF Some] names_differ by simp_all
      show ?thesis
      proof (cases "toString P v")
        case (Inl e)
        then have "add_content P chunk ?st = Inl e"
          by (simp add: add_content_def Some)
        then show ?thesis
          using False by (simp add: agent_callback_def Let_def content_piece_def Some Inl none)
      next
        case (Inr t)
        then have "add_content P chunk ?st = Inr (?st\<lparr>content := content st @ t\<rparr>)"
          by (simp add: add_content_def Some)
        then show ?thesis
          using False
          by (simp add: agent_callback_def Let_def user content_piece_def Some Inr none add_tool_def
                set_usage_def)
      qed
    qed
  qed
  then show "content ?r = content st @ content_piece P chunk"
    and "toolsUsed ?r =
          (case selected P chunk (js ''tool_start'') (js ''toolName'') of
             Some v \<Rightarrow> set_add (entry_of (delivered st) v) (toolsUsed st)
           | None \<Rightarrow> toolsUsed st)"
    and "usage ?r =
          (case selected P chunk (js ''done'') (js ''usage'') of Some v \<Rightarrow> v | None \<Rightarrow> usage st)"
    and "delivered ?r = delivered st + 1"
    by simp_all
qed

lemma set_first_occurrences: "set (first_occurrences xs) = set xs"
  by (simp add: first_occurrences_def)

lemma distinct_first_occurrences: "distinct (first_occurrences xs)"
  by (simp add: first_occurrences_def)

lemma first_occurrences_snoc: "first_occurrences (xs @ [x]) = set_add x (first_occurrences xs)"
  by (simp add: first_occurrences_def set_add_def)

lemma foldl_set_add: "foldl (\<lambda>acc e. set_add e acc) [] xs = first_occurrences xs"
proof (induction xs rule: rev_induct)
  case Nil
  then show ?case by (simp add: first_occurrences_def)
next
  case (snoc x xs)
  then show ?case by (simp add: first_occurrences_snoc)
qed

lemma set_foldl_set_add: "set (foldl (\<lambda>acc e. set_add e acc) acc xs) = set acc \<union> set xs"
  by (induction xs arbitrary: acc) (auto simp: set_add_def)

lemma done_usages_Cons:
  "done_usages P (chunk # chunks) =
     (case selected P chunk (js ''done'') (js ''usage'') of
        None \<Rightarrow> done_usages P chunks
      | Some v \<Rightarrow> v # done_usages P chunks)"
  by (simp add: done_usages_def split: option.split)

lemma agent_deliver:
  "content (deliver (Some (agent_callback P onChunk)) chunks st) =
     content st @ concat (map (content_piece P) chunks)"
  "toolsUsed (deliver (Some (agent_callback P onChunk)) chunks st) =
     foldl (\<lambda>acc e. set_add e acc) (toolsUsed st) (tool_entries P (delivered st) chunks)"
  "usage (deliver (Some (agent_callback P onChunk)) chunks st) =
     (if done_usages P chunks = [] then usage st else last (done_usages P chunks))"
proof -
  have "content (deliver (Some (agent_callback P onChunk)) chunks st) =
          content st @ concat (map (content_piece P) chunks) \<and>
        toolsUsed (deliver (Some (agent_callback P onChunk)) chunks st) =
          foldl (\<lambda>acc e. set_add e acc) (toolsUsed st) (tool_entries P (delivered st) chunks) \<and>
        usage (deliver (Some (agent_callback P onChunk)) chunks st) =
          (if done_usages P chunks = [] then usage st else last (done_usages P chunks))"
  proof (induction chunks arbitrary: st)
    case Nil
    then show ?case by (simp add: done_usages_def)
  next
    case (Cons chunk chunks)
    let ?st = "snd (agent_callback P onChunk chunk st)"
    note ih = Cons.IH [of ?st]
    show ?case
      by (simp add: ih agent_callback_fields done_usages_Cons split: option.split)
  qed
  then show "content (deliver (Some (agent_callback P onChunk)) chunks st) =
     content st @ concat (map (content_piece P) chunks)"
    and "toolsUsed (deliver (Some (agent_callback P onChunk)) chunks st) =
     foldl (\<lambda>acc e. set_add e acc) (toolsUsed st) (tool_entries P (delivered st) chunks)"
    and "usage (deliver (Some (agent_callback P onChunk)) chunks st) =
     (if done_usages P chunks = [] then usage st else last (done_usages P chunks))"
    by simp_all
qed

lemma rescan_null: "JNull \<in> set chunks \<Longrightarrow> rescan P i chunks tools = Inl null_type_error"
proof (induction chunks arbitrary: i tools)
  case Nil
  then show ?case by simp
next
  case (Cons chunk chunks)
  then show ?case by (cases chunk) auto
qed

lemma rescan_adds_nothing:
  "JNull \<notin> set chunks \<Longrightarrow> set (tool_entries P i chunks) \<subseteq> set tools \<Longrightarrow>
   rescan P i chunks tools = Inr tools"
proof (induction chunks arbitrary: i tools)
  case Nil
  then show ?case by simp
next
  case (Cons chunk chunks)
  from Cons.prems have rest: "JNull \<notin> set chunks" "set (tool_entries P (i + 1) chunks) \<subseteq> set tools"
    by (auto split: option.splits)
  have same: "(case selected P chunk (js ''tool_start'') (js ''toolName'') of
                 Some v \<Rightarrow> set_add (entry_of i v) tools
               | None \<Rightarrow> tools) = tools"
    using Cons.prems by (auto simp: set_add_def split: option.splits)
  from Cons.prems have "chunk \<noteq> JNull" by auto
  then show ?case
    using Cons.IH [OF rest] same by (cases chunk) simp_all
qed

lemma rescan_agrees:
  assumes "JNull \<notin> set chunks"
  shows "rescan P 0 chunks (toolsUsed (deliver (Some (agent_callback P onChunk)) chunks (agent_vars0 u))) =
           Inr (toolsUsed (deliver (Some (agent_callback P onChunk)) chunks (agent_vars0 u)))"
  using assms
  by (intro rescan_adds_nothing) (simp_all add: agent_deliver set_foldl_set_add agent_vars0_def)

lemma agent_aggregate:
  assumes "postSse P fetched (Some (agent_callback P onChunk)) (agent_vars0 u) = (Inr chunks, st)"
    and "JNull \<notin> set chunks"
  shows "fst (runStream_promise P fetched onChunk u) =
           Success \<lparr>result_content = concat (map (content_piece P) chunks),
                    result_toolsUsed = map snd (first_occurrences (tool_entries P 0 chunks)),
                    toolRounds = card (set (tool_entries P 0 chunks)),
                    totalUsage = last_usage P chunks\<rparr>"
proof -
  let ?live = "deliver (Some (agent_callback P onChunk)) chunks (agent_vars0 u)"
  from postSse_delivers [OF assms(1)] have st: "st = ?live" .
  have tools: "toolsUsed ?live = first_occurrences (tool_entries P 0 chunks)"
    by (simp add: agent_deliver agent_vars0_def foldl_set_add)
  have rounds: "length (first_occurrences (tool_entries P 0 chunks)) = card (set (tool_entries P 0 chunks))"
    using distinct_card [OF distinct_first_occurrences, of "tool_entries P 0 chunks"]
    by (simp add: set_first_occurrences)
  have text_of: "content ?live = concat (map (content_piece P) chunks)"
    by (simp add: agent_deliver agent_vars0_def)
  have used: "usage ?live = last_usage P chunks"
    by (simp add: agent_deliver agent_vars0_def last_usage_def)
  from rescan_agrees [OF assms(2), of P onChunk u]
  show ?thesis
    by (simp add: runStream_promise_def assms(1) st tools rounds text_of used)
qed

lemma postSse_stream_of:
  assumes "decodable P vs"
  shows "postSse P (Inr (stream_of vs)) cb s = (Inr (events_of P vs), deliver cb (events_of P vs) s)"
proof -
  have "ok (stream_of vs :: 'a response)" and "body (stream_of vs :: 'a response) = Some (map ReadChunk vs)"
    by (simp_all add: stream_of_def)
  then show ?thesis
    by (simp add: postSse_def consume_chunks [OF _ _ assms])
qed

lemma unat_byte_of_char: "unat (of_char c :: byte) = of_char c"
proof -
  have "(of_char c :: byte) = of_nat (of_char c)"
    by (simp add: of_nat_of_char)
  then have "unat (of_char c :: byte) = of_char c mod 256"
    by (simp only: unat_of_nat) simp
  then show ?thesis by simp
qed

lemma ucast_byte_of_char: "(ucast (of_char c :: byte) :: 16 word) = of_char c"
proof -
  have "(ucast (of_char c :: byte) :: 16 word) = of_nat (unat (of_char c :: byte))"
    by (simp only: of_nat_unat)
  also have "\<dots> = of_nat (of_char c)"
    by (simp only: unat_byte_of_char)
  also have "\<dots> = of_char c"
    by (rule of_nat_of_char)
  finally show ?thesis .
qed

lemma decode_ascii:
  "list_all (\<lambda>b. b < 0x80) bs \<Longrightarrow> bytes_needed d = 0 \<Longrightarrow>
   decode_stream d bs = (if bs = [] then d else d\<lparr>bom_seen := True\<rparr>, map ucast bs)"
proof (induction bs arbitrary: d)
  case Nil
  then show ?case by simp
next
  case (Cons b bs)
  from Cons.prems have small: "unat b \<le> 0x7F"
    by (simp add: word_less_nat_alt)
  then have step: "utf8_handler d (unat b) = (d, [unat b])"
    using Cons.prems by (simp add: utf8_handler_def utf8_lead_def)
  from Cons.prems have rest: "list_all (\<lambda>b. b < 0x80) bs" and "bytes_needed (d\<lparr>bom_seen := True\<rparr>) = 0"
    by simp_all
  from Cons.IH [OF this] small show ?case
    by (simp add: step utf16_def)
qed

lemma decode_ascii_text:
  assumes "list_all (\<lambda>c. (of_char c :: nat) < 0x80) s" and "s \<noteq> []" and "bytes_needed d = 0"
  shows "decode_stream d (bytes s) = (d\<lparr>bom_seen := True\<rparr>, js s)"
proof -
  have "list_all (\<lambda>b. b < 0x80) (bytes s)"
    using assms(1) by (simp add: bytes_def list_all_iff word_less_nat_alt unat_byte_of_char)
  then have "decode_stream d (bytes s) = (d\<lparr>bom_seen := True\<rparr>, map ucast (bytes s))"
    using assms(2,3) by (simp add: decode_ascii bytes_def)
  moreover have "map ucast (bytes s) = js s"
    by (simp add: bytes_def js_def ucast_byte_of_char)
  ultimately show ?thesis by simp
qed

lemma feed_A: "feed_text new_decoder [scenario_A] = (new_decoder\<lparr>bom_seen := True\<rparr>,
  js ''data: {\"type\":\"content\",\"content\":\"Hi\"}\<newline>\<newline>data: {\"type\":\"tool_start\",\"toolName\":\"search\"}\<newline>\<newline>data: {\"type\":\"done\",\"usage\":{\"tokens\":5}}'')"
proof -
  have "decode_stream new_decoder scenario_A = (new_decoder\<lparr>bom_seen := True\<rparr>,
    js ''data: {\"type\":\"content\",\"content\":\"Hi\"}\<newline>\<newline>data: {\"type\":\"tool_start\",\"toolName\":\"search\"}\<newline>\<newline>data: {\"type\":\"done\",\"usage\":{\"tokens\":5}}'')"
    unfolding scenario_A_def by (rule decode_ascii_text) (simp_all add: new_decoder_def)
  moreover have "replace_crlf (js ''data: {\"type\":\"content\",\"content\":\"Hi\"}\<newline>\<newline>data: {\"type\":\"tool_start\",\"toolName\":\"search\"}\<newline>\<newline>data: {\"type\":\"done\",\"usage\":{\"tokens\":5}}'') =
      js ''data: {\"type\":\"content\",\"content\":\"Hi\"}\<newline>\<newline>data: {\"type\":\"tool_start\",\"toolName\":\"search\"}\<newline>\<newline>data: {\"type\":\"done\",\"usage\":{\"tokens\":5}}''"
    by (simp add: js_def CR_def)
  ultimately show ?thesis by simp
qed


lemma cut_A: "cut_records (js ''data: {\"type\":\"content\",\"content\":\"Hi\"}\<newline>\<newline>data: {\"type\":\"tool_start\",\"toolName\":\"search\"}\<newline>\<newline>data: {\"type\":\"done\",\"usage\":{\"tokens\":5}}'') =
   ([js ''data: {\"type\":\"content\",\"content\":\"Hi\"}'', js ''data: {\"type\":\"tool_start\",\"toolName\":\"search\"}''], js ''data: {\"type\":\"done\",\"usage\":{\"tokens\":5}}'')"
  by (simp add: cut_records.simps eval_text)

lemma decoded_A1: "decoded example_platform (js ''data: {\"type\":\"content\",\"content\":\"Hi\"}'') =
   Inr [JObj [(js ''type'', JStr (js ''content'')), (js ''content'', JStr (js ''Hi''))]]"
  by (simp add: decoded_def eval_text eval_parse is_lower_def toUpperCase_def)

lemma decoded_A2: "decoded example_platform (js ''data: {\"type\":\"tool_start\",\"toolName\":\"search\"}'') =
   Inr [JObj [(js ''type'', JStr (js ''tool_start'')), (js ''toolName'', JStr (js ''search''))]]"
  by (simp add: decoded_def eval_text eval_parse is_lower_def toUpperCase_def)

lemma decoded_A3: "decoded example_platform (js ''data: {\"type\":\"done\",\"usage\":{\"tokens\":5}}'') =
   Inr [JObj [(js ''type'', JStr (js ''done'')), (js ''usage'', JObj [(js ''tokens'', JNum 5)])]]"
  by (simp add: decoded_def eval_text eval_parse is_lower_def toUpperCase_def)

lemma blocks_A:
  "blocks_of [scenario_A] =
     [js ''data: {\"type\":\"content\",\"content\":\"Hi\"}'',
      js ''data: {\"type\":\"tool_start\",\"toolName\":\"search\"}'',
      js ''data: {\"type\":\"done\",\"usage\":{\"tokens\":5}}'']"
proof -
  have flush: "trim (js ''data: {\"type\":\"done\",\"usage\":{\"tokens\":5}}'' @
      replace_crlf (decode_flush (new_decoder\<lparr>bom_seen := True\<rparr>))) =
      js ''data: {\"type\":\"done\",\"usage\":{\"tokens\":5}}''"
    by (simp add: eval_text eval_decoder)
  show ?thesis
    by (simp only: blocks_of_def feed_A cut_A prod.case flush append.simps)
qed

lemma decodable_A: "decodable example_platform [scenario_A]"
  by (simp add: decodable_def blocks_A decoded_A1 decoded_A2 decoded_A3)

lemma events_A:
  "events_of example_platform [scenario_A] =
     [JObj [(js ''type'', JStr (js ''content'')), (js ''content'', JStr (js ''Hi''))],
      JObj [(js ''type'', JStr (js ''tool_start'')), (js ''toolName'', JStr (js ''search''))],
      JObj [(js ''type'', JStr (js ''done'')), (js ''usage'', JObj [(js ''tokens'', JNum 5)])]]"
  by (simp add: events_of_def blocks_A decoded_A1 decoded_A2 decoded_A3)


lemmas eval_agent = selected_def get_prop_def content_piece_def last_usage_def done_usages_def
  first_occurrences_def entry_of_def js_def

lemma pieces_A:
  "concat (map (content_piece example_platform)
     [JObj [(js ''type'', JStr (js ''content'')), (js ''content'', JStr (js ''Hi''))],
      JObj [(js ''type'', JStr (js ''tool_start'')), (js ''toolName'', JStr (js ''search''))],
      JObj [(js ''type'', JStr (js ''done'')), (js ''usage'', JObj [(js ''tokens'', JNum 5)])]]) = js ''Hi''"
  by (simp add: eval_agent)

lemma tools_A:
  "tool_entries example_platform 0
     [JObj [(js ''type'', JStr (js ''content'')), (js ''content'', JStr (js ''Hi''))],
      JObj [(js ''type'', JStr (js ''tool_start'')), (js ''toolName'', JStr (js ''search''))],
      JObj [(js ''type'', JStr (js ''done'')), (js ''usage'', JObj [(js ''tokens'', JNum 5)])]] =
   [(None, JStr (js ''search''))]"
  by (simp add: eval_agent)

lemma usage_A:
  "last_usage example_platform
     [JObj [(js ''type'', JStr (js ''content'')), (js ''content'', JStr (js ''Hi''))],
      JObj [(js ''type'', JStr (js ''tool_start'')), (js ''toolName'', JStr (js ''search''))],
      JObj [(js ''type'', JStr (js ''done'')), (js ''usage'', JObj [(js ''tokens'', JNum 5)])]] =
   JObj [(js ''tokens'', JNum 5)]"
  by (simp add: eval_agent)


text \<open>
  Claim C5. When \<open>postSse\<close> returns the chunks and none of them is \<open>null\<close>, the promise
  of \<open>runStream\<close> settles with success: \<open>content\<close> is what the content chunks carry,
  joined in the order of arrival; \<open>toolsUsed\<close> lists the tool names in the order of
  their first occurrence and \<open>toolRounds\<close> is the number of distinct ones;
  \<open>totalUsage\<close> is the usage of the last done chunk that has one, \<open>null\<close> when there is
  none. For the three records of scenario A the result is \<open>Hi\<close>, \<open>search\<close>, one round
  and \<open>{tokens: 5}\<close>.
\<close>

theorem agent_run_aggregate:
  assumes "postSse P fetched (Some (agent_callback P onChunk)) (agent_vars0 u) = (Inr chunks, st)"
    and "JNull \<notin> set chunks"
  shows "fst (runStream_promise P fetched onChunk u) =
           Success \<lparr>result_content = concat (map (content_piece P) chunks),
                    result_toolsUsed = map snd (first_occurrences (tool_entries P 0 chunks)),
                    toolRounds = card (set (tool_entries P 0 chunks)),
                    totalUsage = last_usage P chunks\<rparr> \<and>
         fst (runStream_promise example_platform (Inr (stream_of [scenario_A])) (Some record_chunks) []) =
           Success \<lparr>result_content = js ''Hi'', result_toolsUsed = [JStr (js ''search'')],
                    toolRounds = 1, totalUsage = JObj [(js ''tokens'', JNum 5)]\<rparr>"
proof -
  let ?chunks = "events_of example_platform [scenario_A]"
  have no_null: "JNull \<notin> set ?chunks"
    by (simp add: events_A)
  have "fst (runStream_promise example_platform (Inr (stream_of [scenario_A])) (Some record_chunks) []) =
      Success \<lparr>result_content = concat (map (content_piece example_platform) ?chunks),
               result_toolsUsed = map snd (first_occurrences (tool_entries example_platform 0 ?chunks)),
               toolRounds = card (set (tool_entries example_platform 0 ?chunks)),
               totalUsage = last_usage example_platform ?chunks\<rparr>"
    by (rule agent_aggregate [OF postSse_stream_of [OF decodable_A] no_null])
  also have "\<dots> = Success \<lparr>result_content = js ''Hi'', result_toolsUsed = [JStr (js ''search'')],
                    toolRounds = 1, totalUsage = JObj [(js ''tokens'', JNum 5)]\<rparr>"
    by (simp only: events_A pieces_A tools_A usage_A) (simp add: first_occurrences_def)
  finally show ?thesis
    using agent_aggregate [OF assms] by simp
qed

lemma feed_W: "feed_text new_decoder scenario_W = (new_decoder\<lparr>bom_seen := True\<rparr>,
  js ''data: {\"type\":\"content\",\"content\":\"H\"}\<newline>\<newline>data: {\"type\":\"tool_start\",\"toolName\":\"a\"}\<newline>\<newline>data: {\"type\":\"tool_start\",\"toolName\":\"a\"}\<newline>\<newline>data: {\"type\":\"done\",\"usage\":2}\<newline>\<newline>'')"
proof -
  have one: "decode_stream new_decoder (bytes ''data: {\"type\":\"content\",\"content\":\"H\"}\<newline>\<newline>data: {\"type\":\"tool_start\",\"to'') =
      (new_decoder\<lparr>bom_seen := True\<rparr>, js ''data: {\"type\":\"content\",\"content\":\"H\"}\<newline>\<newline>data: {\"type\":\"tool_start\",\"to'')"
    by (rule decode_ascii_text) (simp_all add: new_decoder_def)
  have two: "decode_stream (new_decoder\<lparr>bom_seen := True\<rparr>) (bytes ''olName\":\"a\"}\<newline>\<newline>data: {\"type\":\"tool_start\",\"toolName\":\"a\"}\<newline>\<newline>data: {\"type\":\"done\",\"usage\":2}\<newline>\<newline>'') =
      (new_decoder\<lparr>bom_seen := True, bom_seen := True\<rparr>, js ''olName\":\"a\"}\<newline>\<newline>data: {\"type\":\"tool_start\",\"toolName\":\"a\"}\<newline>\<newline>data: {\"type\":\"done\",\"usage\":2}\<newline>\<newline>'')"
    by (rule decode_ascii_text) (simp_all add: new_decoder_def)
  show ?thesis
    unfolding scenario_W_def
    by (simp only: feed_text.simps one two prod.case) (simp add: js_def CR_def)
qed

lemma cut_W: "cut_records (js ''data: {\"type\":\"content\",\"content\":\"H\"}\<newline>\<newline>data: {\"type\":\"tool_start\",\"toolName\":\"a\"}\<newline>\<newline>data: {\"type\":\"tool_start\",\"toolName\":\"a\"}\<newline>\<newline>data: {\"type\":\"done\",\"usage\":2}\<newline>\<newline>'') =
   ([js ''data: {\"type\":\"content\",\"content\":\"H\"}'', js ''data: {\"type\":\"tool_start\",\"toolName\":\"a\"}'',
     js ''data: {\"type\":\"tool_start\",\"toolName\":\"a\"}'', js ''data: {\"type\":\"done\",\"usage\":2}''], [])"
  by (simp add: cut_records.simps eval_text)

lemma decoded_W1: "decoded example_platform (js ''data: {\"type\":\"content\",\"content\":\"H\"}'') =
   Inr [JObj [(js ''type'', JStr (js ''content'')), (js ''content'', JStr (js ''H''))]]"
  by (simp add: decoded_def eval_text eval_parse is_lower_def toUpperCase_def)

lemma decoded_W2: "decoded example_platform (js ''data: {\"type\":\"tool_start\",\"toolName\":\"a\"}'') =
   Inr [JObj [(js ''type'', JStr (js ''tool_start'')), (js ''toolName'', JStr (js ''a''))]]"
  by (simp add: decoded_def eval_text eval_parse is_lower_def toUpperCase_def)

lemma decoded_W3: "decoded example_platform (js ''data: {\"type\":\"done\",\"usage\":2}'') =
   Inr [JObj [(js ''type'', JStr (js ''done'')), (js ''usage'', JNum 2)]]"
  by (simp add: decoded_def eval_text eval_parse is_lower_def toUpperCase_def)

lemma flush_empty:
  "trim ([] @ replace_crlf (decode_flush (new_decoder\<lparr>bom_seen := True\<rparr>))) = []"
  "trim (replace_crlf (decode_flush (new_decoder\<lparr>bom_seen := True\<rparr>))) = []"
  by (simp_all add: eval_text eval_decoder)

lemma blocks_W:
  "blocks_of scenario_W =
     [js ''data: {\"type\":\"content\",\"content\":\"H\"}'',
      js ''data: {\"type\":\"tool_start\",\"toolName\":\"a\"}'',
      js ''data: {\"type\":\"tool_start\",\"toolName\":\"a\"}'',
      js ''data: {\"type\":\"done\",\"usage\":2}'', []]"
  by (simp only: blocks_of_def feed_W cut_W prod.case flush_empty append.simps)

lemma decodable_W: "decodable example_platform scenario_W"
  by (simp add: decodable_def blocks_W decoded_W1 decoded_W2 decoded_W3 decoded_Nil)

lemma events_W:
  "events_of example_platform scenario_W =
     [JObj [(js ''type'', JStr (js ''content'')), (js ''content'', JStr (js ''H''))],
      JObj [(js ''type'', JStr (js ''tool_start'')), (js ''toolName'', JStr (js ''a''))],
      JObj [(js ''type'', JStr (js ''tool_start'')), (js ''toolName'', JStr (js ''a''))],
      JObj [(js ''type'', JStr (js ''done'')), (js ''usage'', JNum 2)]]"
  by (simp add: events_of_def blocks_W decoded_W1 decoded_W2 decoded_W3 decoded_Nil)

theorem agent_run_aggregate_witness:
  "JNull \<notin> set (events_of example_platform scenario_W) \<and>
   fst (runStream_promise example_platform (Inr (stream_of scenario_W)) (Some record_chunks) []) =
     Success \<lparr>result_content = js ''H'', result_toolsUsed = [JStr (js ''a'')],
              toolRounds = 1, totalUsage = JNum 2\<rparr>"
proof -
  let ?chunks = "events_of example_platform scenario_W"
  have no_null: "JNull \<notin> set ?chunks"
    by (simp add: events_W)
  have pieces: "concat (map (content_piece example_platform) ?chunks) = js ''H''"
    unfolding events_W by (simp add: eval_agent)
  have tools: "tool_entries example_platform 0 ?chunks = [(None, JStr (js ''a'')), (None, JStr (js ''a''))]"
    unfolding events_W by (simp add: eval_agent)
  have used: "last_usage example_platform ?chunks = JNum 2"
    unfolding events_W by (simp add: eval_agent example_platform_def)
  from agent_run_aggregate [OF postSse_stream_of [OF decodable_W] no_null, of "Some record_chunks" "[]",
      THEN conjunct1]
  have "fst (runStream_promise example_platform (Inr (stream_of scenario_W)) (Some record_chunks) []) =
     Success \<lparr>result_content = js ''H'', result_toolsUsed = [JStr (js ''a'')],
              toolRounds = 1, totalUsage = JNum 2\<rparr>"
    by (simp only: pieces tools used) (simp add: first_occurrences_def)
  with no_null show ?thesis
    by (rule conjI)
qed

lemma events_null:
  "decodable example_platform [null_stream] \<and>
   events_of example_platform [null_stream] =
     [JObj [(js ''type'', JStr (js ''tool_start'')), (js ''toolName'', JStr (js ''a''))], JNull]"
proof -
  have dec: "decode_stream new_decoder null_stream = (new_decoder\<lparr>bom_seen := True\<rparr>,
      js ''data: {\"type\":\"tool_start\",\"toolName\":\"a\"}\<newline>\<newline>data: null\<newline>\<newline>'')"
    unfolding null_stream_def by (rule decode_ascii_text) (simp_all add: new_decoder_def)
  have feed: "feed_text new_decoder [null_stream] = (new_decoder\<lparr>bom_seen := True\<rparr>,
      js ''data: {\"type\":\"tool_start\",\"toolName\":\"a\"}\<newline>\<newline>data: null\<newline>\<newline>'')"
    by (simp only: feed_text.simps dec prod.case) (simp add: js_def CR_def)
  have cut: "cut_records (js ''data: {\"type\":\"tool_start\",\"toolName\":\"a\"}\<newline>\<newline>data: null\<newline>\<newline>'') =
      ([js ''data: {\"type\":\"tool_start\",\"toolName\":\"a\"}'', js ''data: null''], [])"
    by (simp add: cut_records.simps eval_text)
  have null: "decoded example_platform (js ''data: null'') = Inr [JNull]"
    by (simp add: decoded_def eval_text eval_parse)
  have blocks: "blocks_of [null_stream] =
      [js ''data: {\"type\":\"tool_start\",\"toolName\":\"a\"}'', js ''data: null'', []]"
    by (simp only: blocks_of_def feed cut prod.case flush_empty append.simps)
  show ?thesis
    by (simp add: decodable_def events_of_def blocks decoded_W2 null decoded_Nil)
qed

text \<open>
  Claim C8, on a body whose second record is \<open>data: null\<close>. During delivery the
  \<open>TypeError\<close> of reading \<open>chunk.type\<close> on \<open>null\<close> is caught by \<open>emitBlock\<close>, and
  the set holds the tool of the first record. The scan of the returned list reads
  \<open>chunk.type\<close> outside any such guard: it throws, and the promise settles as a failure
  with the message of the \<open>TypeError\<close>. Without a \<open>null\<close> chunk the scan returns the
  set it was given (\<open>rescan_agrees\<close>).
\<close>

theorem null_event_fails_rescan:
  "fst (postSse example_platform (Inr (stream_of [null_stream]))
          (Some (agent_callback example_platform (Some record_chunks))) (agent_vars0 [])) =
     Inr [JObj [(js ''type'', JStr (js ''tool_start'')), (js ''toolName'', JStr (js ''a''))], JNull] \<and>
   toolsUsed (snd (postSse example_platform (Inr (stream_of [null_stream]))
                     (Some (agent_callback example_platform (Some record_chunks))) (agent_vars0 []))) =
     [(None, JStr (js ''a''))] \<and>
   rescan example_platform 0
     [JObj [(js ''type'', JStr (js ''tool_start'')), (js ''toolName'', JStr (js ''a''))], JNull]
     [(None, JStr (js ''a''))] = Inl null_type_error \<and>
   fst (runStream_promise example_platform (Inr (stream_of [null_stream])) (Some record_chunks) []) =
     Failure (err_message null_type_error)"
proof -
  let ?tool = "JObj [(js ''type'', JStr (js ''tool_start'')), (js ''toolName'', JStr (js ''a''))] :: int json"
  let ?cb = "Some (agent_callback example_platform (Some record_chunks))"
  have entries: "tool_entries example_platform 0 [?tool, JNull] = [(None, JStr (js ''a''))]"
    by (simp add: eval_agent)
  have start: "delivered (agent_vars0 [] :: (int, int json list) agent_vars) = 0"
    "toolsUsed (agent_vars0 [] :: (int, int json list) agent_vars) = []"
    by (simp_all add: agent_vars0_def)
  have live: "toolsUsed (deliver ?cb [?tool, JNull] (agent_vars0 [])) = [(None, JStr (js ''a''))]"
    by (simp only: agent_deliver start entries) (simp add: set_add_def)
  have scan: "rescan example_platform 0 [?tool, JNull] [(None, JStr (js ''a''))] = Inl null_type_error"
    by (rule rescan_null) simp
  have name: "err_name null_type_error \<noteq> js ''AbortError''"
    by (simp add: null_type_error_def js_def)
  note events = events_null [THEN conjunct2]
  show ?thesis
    by (simp add: postSse_stream_of [OF events_null [THEN conjunct1]] events live scan
          runStream_promise_def settle_error_def name del: deliver.simps)
qed

section \<open>The registry of running requests\<close>

lemma read_loop_then_throws:
  "read_loop P cb rs d b chunks s = (Inr r, s') \<Longrightarrow>
   read_loop P cb (rs @ [ReadThrows e]) d b chunks s = (Inl e, s')"
proof (induction P cb rs d b chunks s rule: read_loop.induct)
  case (3 P onChunk v reads decoder buffer chunks s)
  then show ?case
    by (auto split: prod.splits sum.splits)
qed simp_all

lemma read_loop_took_chunks:
  "read_loop P cb rs d b chunks s = (Inr r, s') \<Longrightarrow> \<forall>x \<in> set rs. \<exists>v. x = ReadChunk v"
proof (induction P cb rs d b chunks s rule: read_loop.induct)
  case (3 P onChunk v reads decoder buffer chunks s)
  then show ?case
    by (auto split: prod.splits sum.splits)
qed simp_all

lemma reads_signal_abort:
  "quiet c pre w \<Longrightarrow> length pre \<le> length reads \<Longrightarrow>
   \<forall>x \<in> set (take (length pre) reads). \<exists>v. x = ReadChunk v \<Longrightarrow>
   chunk_next (drop (length pre) reads) \<or> \<not> early \<Longrightarrow>
   c \<in> aborted (a (run_actions pre w)) \<Longrightarrow>
   reads_signal c early (pre @ a # post) reads w =
     (take (length pre) reads @ [ReadThrows abort_error], a (run_actions pre w))"
proof (induction pre arbitrary: reads w)
  case Nil
  then show ?case
    by (cases "(c, early, a # post, reads, w)" rule: reads_signal.cases) (auto simp: act_def)
next
  case (Cons p pre)
  from Cons.prems(2) obtain x rest where reads: "reads = x # rest"
    by (cases reads) auto
  with Cons.prems(3) obtain v where x: "x = ReadChunk v"
    by auto
  from Cons.prems have "quiet c pre (p w)" "length pre \<le> length rest"
    "\<forall>x \<in> set (take (length pre) rest). \<exists>v. x = ReadChunk v"
    "chunk_next (drop (length pre) rest) \<or> \<not> early"
    "c \<in> aborted (a (run_actions pre (p w)))" "c \<notin> aborted (p w)"
    by (simp_all add: reads)
  note facts = this
  from Cons.IH [of "p w" rest] facts(1-5)
  have "reads_signal c early (pre @ a # post) rest (p w) =
      (take (length pre) rest @ [ReadThrows abort_error], a (run_actions pre (p w)))"
    by simp
  with facts(6) show ?case
    by (simp add: reads x act_def)
qed

lemma settle_abort_error: "settle_error abort_error = Failure (js ''aborted'')"
  by (simp add: settle_error_def abort_error_def)

lemma aborted_while_waiting:
  assumes "quiet c pre w" and "in_flight P onChunk u (length pre) net early"
    and "c \<in> aborted (a (run_actions pre w))"
  shows "\<exists>st. postSse P (fst (fetch_signal c early (pre @ a # post) net w))
                (Some (agent_callback P onChunk)) (agent_vars0 u) = (Inl abort_error, st)"
    and "snd (fetch_signal c early (pre @ a # post) net w) = a (run_actions pre w)"
proof -
  let ?cb = "Some (agent_callback P onChunk)"
  have "(\<exists>st. postSse P (fst (fetch_signal c early (pre @ a # post) net w)) ?cb (agent_vars0 u) =
           (Inl abort_error, st)) \<and>
        snd (fetch_signal c early (pre @ a # post) net w) = a (run_actions pre w)"
  proof (cases pre)
    case Nil
    with assms(3) show ?thesis
      by (auto simp: fetch_signal_def act_def postSse_def)
  next
    case (Cons p pre')
    from assms(2) Cons obtain response reads r st
      where net: "net = Inr response" and okr: "ok response" and b: "body response = Some reads"
        and len: "length pre' \<le> length reads"
        and loop: "read_loop P ?cb (take (length pre') reads) new_decoder [] [] (agent_vars0 u) = (Inr r, st)"
        and next_read: "chunk_next (drop (length pre') reads) \<or> \<not> early"
      by (cases net) (auto split: option.splits sum.splits simp: prod_eq_iff)
    from assms(1,3) Cons have q: "quiet c pre' (p w)" "c \<notin> aborted (p w)"
      "c \<in> aborted (a (run_actions pre' (p w)))"
      by simp_all
    have seen: "reads_signal c early (pre' @ a # post) reads (p w) =
        (take (length pre') reads @ [ReadThrows abort_error], a (run_actions pre' (p w)))"
      using reads_signal_abort [of c pre' "p w" reads early a post] q(1) len
        read_loop_took_chunks [OF loop] next_read q(3)
      by simp
    have "postSse P (Inr (response\<lparr>body := Some (take (length pre') reads @ [ReadThrows abort_error])\<rparr>))
            ?cb (agent_vars0 u) = (Inl abort_error, st)"
      using read_loop_then_throws [OF loop, of abort_error] okr
      by (simp add: postSse_def consumeSseResponse_def)
    then show ?thesis
      using seen q(2) net okr b
      by (auto simp: Cons fetch_signal_def act_def)
  qed
  then show "\<exists>st. postSse P (fst (fetch_signal c early (pre @ a # post) net w)) ?cb (agent_vars0 u) =
      (Inl abort_error, st)"
    and "snd (fetch_signal c early (pre @ a # post) net w) = a (run_actions pre w)"
    by blast+
qed

lemma abort_call_registered:
  "activeAgentRequests w requestId = Some c \<Longrightarrow>
   abort_call requestId remote w =
     w\<lparr>aborted := insert c (aborted w),
       activeAgentRequests := (activeAgentRequests w)(requestId := None)\<rparr>"
  by (simp add: abort_call_def abort_def)

text \<open>
  When \<open>context\<close> is \<open>null\<close>, \<open>runStream\<close> throws after it has registered the
  controller: no promise is created, so no \<open>finally\<close> clause runs, and the entry stays.
\<close>

lemma null_context_leaves_entry:
  "runStream P net early onChunk requestId JNull env tail u w =
     (Inl null_type_error,
      w\<lparr>activeAgentRequests := (activeAgentRequests w)(requestId \<mapsto> controllers w),
        controllers := controllers w + 1\<rparr>)"
  by (simp add: runStream_def runStream_start_def payload_error_def Let_def)


text \<open>
  Claim C6, as amended. \<open>runStream\<close> has returned, with the request registered under
  \<open>requestId\<close>; the request waits, for the \<open>fetch\<close> or for a read of a body that is
  still readable, nothing has aborted its controller, and the entry is still its own.
  Then a call of \<open>abort\<close> with \<open>requestId\<close> before that wait ends makes the promise
  settle with \<open>{success: false, error: 'aborted'}\<close>: the call signals the controller of
  the request and removes the entry of \<open>requestId\<close>. On every path on which the promise
  settles (success, failure or abort) the entry of \<open>requestId\<close> is absent afterwards;
  after an abort the registry is the one that \<open>abort\<close> left, the \<open>finally\<close> clause
  finding no entry to remove. And what is done to the shared state after the last wait
  of the request, a call of \<open>abort\<close> included, does not change what the promise settles
  to.
\<close>

theorem abort_while_waiting:
  assumes "runStream_start P requestId context w = (Inr c, w1)"
    and "quiet c pre w1"
    and "activeAgentRequests (run_actions pre w1) requestId = Some c"
    and "in_flight P onChunk u (length pre) net early"
  shows "settlement (runStream P net early onChunk requestId context
                       (pre @ abort_call requestId remote # post) tail u w) =
           Some (Failure (js ''aborted'')) \<and>
         activeAgentRequests w1 requestId = Some c \<and>
         abort_call requestId remote (run_actions pre w1) =
           (run_actions pre w1)\<lparr>aborted := insert c (aborted (run_actions pre w1)),
             activeAgentRequests := (activeAgentRequests (run_actions pre w1))(requestId := None)\<rparr> \<and>
         (\<forall>net' early' env' tail' u0.
            activeAgentRequests
              (snd (runStream P net' early' onChunk requestId context env' tail' u0 w)) requestId = None) \<and>
         activeAgentRequests
           (snd (runStream P net early onChunk requestId context
                   (pre @ abort_call requestId remote # post) id u w)) =
           activeAgentRequests (abort_call requestId remote (run_actions pre w1)) \<and>
         (\<forall>net' early' env' tail'.
            settlement (runStream P net' early' onChunk requestId context env' tail' u w) =
            settlement (runStream P net' early' onChunk requestId context env' id u w))"
proof -
  let ?a = "abort_call requestId remote"
  have call: "?a (run_actions pre w1) =
      (run_actions pre w1)\<lparr>aborted := insert c (aborted (run_actions pre w1)),
        activeAgentRequests := (activeAgentRequests (run_actions pre w1))(requestId := None)\<rparr>"
    using assms(3) by (rule abort_call_registered)
  then have signalled: "c \<in> aborted (?a (run_actions pre w1))"
    by simp
  from aborted_while_waiting(1) [where a = ?a and post = post, OF assms(2,4) signalled]
  obtain st where "postSse P (fst (fetch_signal c early (pre @ ?a # post) net w1))
      (Some (agent_callback P onChunk)) (agent_vars0 u) = (Inl abort_error, st)"
    by auto
  then have failure: "fst (runStream_promise P (fst (fetch_signal c early (pre @ ?a # post) net w1))
      onChunk u) = Failure (js ''aborted'')"
    by (simp add: runStream_promise_def settle_abort_error)
  obtain fetched w' where seen: "fetch_signal c early (pre @ ?a # post) net w1 = (fetched, w')"
    by (cases "fetch_signal c early (pre @ ?a # post) net w1")
  obtain res u' where promise: "runStream_promise P fetched onChunk u = (res, u')"
    by (cases "runStream_promise P fetched onChunk u")
  from failure seen promise have "res = Failure (js ''aborted'')"
    by simp
  then have settled: "settlement (runStream P net early onChunk requestId context (pre @ ?a # post)
      tail u w) = Some (Failure (js ''aborted''))"
    by (simp add: settlement_def runStream_def assms(1) runStream_settle_def seen promise)
  have registered: "activeAgentRequests w1 requestId = Some c"
    using assms(1)
    by (auto simp: runStream_start_def Let_def split: option.splits)
  have absent: "activeAgentRequests
      (snd (runStream P net' early' onChunk requestId context env' tail' u0 w)) requestId = None"
    for net' early' env' tail' u0
    using assms(1)
    by (simp add: runStream_def runStream_settle_def split: prod.splits)
  have world: "snd (fetch_signal c early (pre @ ?a # post) net w1) = ?a (run_actions pre w1)"
    using assms(2,4) signalled by (rule aborted_while_waiting(2))
  have once: "activeAgentRequests
      (snd (runStream P net early onChunk requestId context (pre @ ?a # post) id u w)) =
      activeAgentRequests (?a (run_actions pre w1))"
    using world
    by (simp add: runStream_def assms(1) runStream_settle_def seen call)
  have late: "settlement (runStream P net' early' onChunk requestId context env' tail' u w) =
      settlement (runStream P net' early' onChunk requestId context env' id u w)"
    for net' early' env' tail'
    using assms(1)
    by (simp add: settlement_def runStream_def runStream_settle_def case_prod_unfold)
  show ?thesis
    using settled registered call absent once late by blast
qed

theorem abort_while_waiting_witness:
  "fst (runStream_start example_platform (js ''agent_1'') (JObj []) empty_world) = Inr 0 \<and>
   in_flight example_platform (Some record_chunks) [] (length [id :: action, id])
     (Inr (stream_of [bytes ''data: {\"type\":\"content\",\"content\":\"H\"}\<newline>\<newline>'',
                      bytes ''data: {\"type\":\"content\",\"content\":\"i\"}\<newline>\<newline>'']))
     True \<and>
   settlement (runStream example_platform
       (Inr (stream_of [bytes ''data: {\"type\":\"content\",\"content\":\"H\"}\<newline>\<newline>'',
                        bytes ''data: {\"type\":\"content\",\"content\":\"i\"}\<newline>\<newline>'']))
       True (Some record_chunks) (js ''agent_1'') (JObj [])
       ([id, id] @ abort_call (js ''agent_1'') (Inl abort_error :: js_error + int response) # [])
       id [] empty_world) = Some (Failure (js ''aborted'')) \<and>
   fst (runStream example_platform
       (Inr (stream_of [bytes ''data: {\"type\":\"content\",\"content\":\"H\"}\<newline>\<newline>'',
                        bytes ''data: {\"type\":\"content\",\"content\":\"i\"}\<newline>\<newline>'']))
       True (Some record_chunks) (js ''agent_1'') (JObj [])
       ([id, id] @ abort_call (js ''agent_1'') (Inl abort_error :: js_error + int response) # [])
       id [] empty_world) =
     Inr (Failure (js ''aborted''),
          [JObj [(js ''type'', JStr (js ''content'')), (js ''content'', JStr (js ''H''))]]) \<and>
   activeAgentRequests
     (snd (runStream example_platform
       (Inr (stream_of [bytes ''data: {\"type\":\"content\",\"content\":\"H\"}\<newline>\<newline>'',
                        bytes ''data: {\"type\":\"content\",\"content\":\"i\"}\<newline>\<newline>'']))
       True (Some record_chunks) (js ''agent_1'') (JObj []) [] id [] empty_world)) (js ''agent_1'') = None"
proof -
  let ?P = "example_platform"
  let ?id = "js ''agent_1''"
  let ?c1 = "bytes ''data: {\"type\":\"content\",\"content\":\"H\"}\<newline>\<newline>''"
  let ?c2 = "bytes ''data: {\"type\":\"content\",\"content\":\"i\"}\<newline>\<newline>''"
  let ?net = "Inr (stream_of [?c1, ?c2]) :: js_error + int response"
  let ?w1 = "\<lparr>activeAgentRequests = [?id \<mapsto> 0], aborted = {}, controllers = 1\<rparr>"
  let ?remote = "Inl abort_error :: js_error + int response"
  let ?ev = "JObj [(js ''type'', JStr (js ''content'')), (js ''content'', JStr (js ''H''))] :: int json"
  let ?cb = "Some (agent_callback ?P (Some record_chunks))"
  let ?st = "\<lparr>content = js ''H'', toolsUsed = [], usage = JNull, delivered = 1, caller = [?ev]\<rparr>
      :: (int, int json list) agent_vars"
  let ?env = "[id, id] @ abort_call ?id ?remote # []"
  have start: "runStream_start ?P ?id (JObj []) empty_world = (Inr 0, ?w1)"
    by (simp add: runStream_start_def payload_error_def or_else_def get_prop_def empty_world_def Let_def)
  then have first: "fst (runStream_start ?P ?id (JObj []) empty_world) = Inr 0"
    by (simp only: fst_conv)
  have q: "quiet 0 [id, id] ?w1"
    by simp
  have reg: "activeAgentRequests (run_actions [id, id] ?w1) ?id = Some 0"
    by simp
  have dec1: "decode_stream new_decoder ?c1 =
      (new_decoder\<lparr>bom_seen := True\<rparr>, js ''data: {\"type\":\"content\",\"content\":\"H\"}\<newline>\<newline>'')"
    by (rule decode_ascii_text) (simp_all add: new_decoder_def)
  have feed: "feed_text new_decoder [?c1] =
      (new_decoder\<lparr>bom_seen := True\<rparr>, js ''data: {\"type\":\"content\",\"content\":\"H\"}\<newline>\<newline>'')"
    by (simp only: feed_text.simps dec1 prod.case) (simp add: js_def CR_def)
  have cut: "cut_records (js ''data: {\"type\":\"content\",\"content\":\"H\"}\<newline>\<newline>'') =
      ([js ''data: {\"type\":\"content\",\"content\":\"H\"}''], [])"
    by (simp add: cut_records.simps eval_text)
  have cb: "agent_callback ?P (Some record_chunks) ?ev (agent_vars0 []) = (None, ?st)"
    by (simp add: agent_callback_def add_content_def add_tool_def set_usage_def call_onChunk_def
          selected_def get_prop_def agent_vars0_def record_chunks_def js_def Let_def)
  have none: "indexOf_lflf ([] :: jstr) = None"
    by simp
  from read_loop_chunks [OF none, of ?P ?cb "[?c1]" new_decoder "[]" "agent_vars0 []"]
  have "read_loop ?P ?cb (map ReadChunk [?c1]) new_decoder [] [] (agent_vars0 []) =
      (case emit_blocks ?P ?cb [js ''data: {\"type\":\"content\",\"content\":\"H\"}''] []
              (agent_vars0 []) of
         (Inl e, s') \<Rightarrow> (Inl e, s')
       | (Inr chunks', s') \<Rightarrow> (Inr (new_decoder\<lparr>bom_seen := True\<rparr>, [], chunks'), s'))"
    by (simp only: feed cut prod.case append_Nil)
  then have loop: "read_loop ?P ?cb [ReadChunk ?c1] new_decoder [] [] (agent_vars0 []) =
      (Inr (new_decoder\<lparr>bom_seen := True\<rparr>, [], [?ev]), ?st)"
    by (simp add: emitBlock_eq decoded_W1 cb)
  have flight: "in_flight ?P (Some record_chunks) [] (length [id :: action, id]) ?net True"
    by (simp add: stream_of_def loop del: read_loop.simps)
  note all = abort_while_waiting [OF start q reg flight, where remote = ?remote and post = "[]" and tail = id]
  from all have settled: "settlement (runStream ?P ?net True (Some record_chunks) ?id (JObj []) ?env id []
      empty_world) = Some (Failure (js ''aborted''))"
    by (rule conjunct1)
  from all have "\<forall>net' early' env' tail' u0. activeAgentRequests
      (snd (runStream ?P net' early' (Some record_chunks) ?id (JObj []) env' tail' u0 empty_world)) ?id = None"
    by (elim conjE)
  then have absent: "activeAgentRequests
      (snd (runStream ?P ?net True (Some record_chunks) ?id (JObj []) [] id [] empty_world)) ?id = None"
    by blast
  have seen: "fst (fetch_signal 0 True ?env ?net ?w1) =
      Inr ((stream_of [?c1, ?c2])\<lparr>body := Some [ReadChunk ?c1, ReadThrows abort_error]\<rparr>)"
    by (simp add: fetch_signal_def act_def stream_of_def abort_call_def abort_def)
  have thrown: "read_loop ?P ?cb ([ReadChunk ?c1] @ [ReadThrows abort_error]) new_decoder [] []
      (agent_vars0 []) = (Inl abort_error, ?st)"
    using loop by (rule read_loop_then_throws)
  then have promise: "runStream_promise ?P
      (Inr ((stream_of [?c1, ?c2])\<lparr>body := Some [ReadChunk ?c1, ReadThrows abort_error]\<rparr>))
      (Some record_chunks) [] = (Failure (js ''aborted''), [?ev])"
    by (simp add: runStream_promise_def postSse_def consumeSseResponse_def stream_of_def
          settle_abort_error del: read_loop.simps)
  have observer: "fst (runStream ?P ?net True (Some record_chunks) ?id (JObj []) ?env id [] empty_world) =
      Inr (Failure (js ''aborted''), [?ev])"
  proof -
    obtain fetched w' where run: "fetch_signal 0 True ?env ?net ?w1 = (fetched, w')"
      by (cases "fetch_signal 0 True ?env ?net ?w1")
    with seen have fetched: "fetched =
        Inr ((stream_of [?c1, ?c2])\<lparr>body := Some [ReadChunk ?c1, ReadThrows abort_error]\<rparr>)"
      by (simp only: fst_conv)
    show ?thesis
      by (simp only: runStream_def start prod.case sum.case runStream_settle_def run fetched promise
            fst_conv)
  qed
  show ?thesis
    by (intro conjI) (fact first, fact flight, fact settled, fact observer, fact absent)
qed

text \<open>
  Claim C6, as stated, fails. The body is one record without a blank line after it, so
  the record is emitted once the last read has reported the end. An \<open>abort\<close> called at
  that point (from the \<open>onChunk\<close> that is given the event, for one) finds the request
  registered, signals its controller and removes the entry; the request waits for
  nothing any more, and its promise settles with success.
\<close>

theorem abort_after_last_read:
  "activeAgentRequests (snd (runStream_start example_platform (js ''agent_1'') (JObj []) empty_world))
     (js ''agent_1'') = Some 0 \<and>
   settlement (runStream example_platform
       (Inr (stream_of [bytes ''data: {\"type\":\"content\",\"content\":\"H\"}'']))
       True (Some record_chunks) (js ''agent_1'') (JObj []) []
       (abort_call (js ''agent_1'') (Inl abort_error :: js_error + int response)) [] empty_world) =
     Some (Success \<lparr>result_content = js ''H'', result_toolsUsed = [], toolRounds = 0, totalUsage = JNull\<rparr>) \<and>
   aborted (snd (runStream example_platform
       (Inr (stream_of [bytes ''data: {\"type\":\"content\",\"content\":\"H\"}'']))
       True (Some record_chunks) (js ''agent_1'') (JObj []) []
       (abort_call (js ''agent_1'') (Inl abort_error :: js_error + int response)) [] empty_world)) = {0}"
proof -
  let ?P = "example_platform"
  let ?id = "js ''agent_1''"
  let ?body = "[bytes ''data: {\"type\":\"content\",\"content\":\"H\"}'']"
  let ?ev = "JObj [(js ''type'', JStr (js ''content'')), (js ''content'', JStr (js ''H''))] :: int json"
  let ?cb = "Some (agent_callback ?P (Some record_chunks))"
  have ok: "ok (stream_of vs :: int response)" for vs
    by (simp add: stream_of_def)
  have body: "body (stream_of vs :: int response) = Some (map ReadChunk vs)" for vs
    by (simp add: stream_of_def)
  have start: "runStream_start ?P ?id (JObj []) empty_world =
      (Inr 0, \<lparr>activeAgentRequests = [?id \<mapsto> 0], aborted = {}, controllers = 1\<rparr>)"
    by (simp add: runStream_start_def payload_error_def or_else_def get_prop_def empty_world_def Let_def)
  have seen: "fetch_signal 0 True [] (Inr (stream_of ?body)) w = (Inr (stream_of ?body :: int response), w)"
    if "0 \<notin> aborted w" for w
    using that by (simp add: fetch_signal_def act_def stream_of_def)
  have feed: "feed_text new_decoder ?body =
      (new_decoder\<lparr>bom_seen := True\<rparr>, js ''data: {\"type\":\"content\",\"content\":\"H\"}'')"
    by (simp add: eval_text eval_decoder)
  have cut: "cut_records (js ''data: {\"type\":\"content\",\"content\":\"H\"}'') =
      ([], js ''data: {\"type\":\"content\",\"content\":\"H\"}'')"
    by (simp add: cut_records.simps eval_text)
  have rest: "trim (js ''data: {\"type\":\"content\",\"content\":\"H\"}'' @
      replace_crlf (decode_flush (new_decoder\<lparr>bom_seen := True\<rparr>))) =
      js ''data: {\"type\":\"content\",\"content\":\"H\"}''"
    by (simp add: eval_text eval_decoder)
  have blocks: "blocks_of ?body = [js ''data: {\"type\":\"content\",\"content\":\"H\"}'']"
    by (simp only: blocks_of_def feed cut prod.case rest append.simps)
  have dec: "decoded ?P (js ''data: {\"type\":\"content\",\"content\":\"H\"}'') = Inr [?ev]"
    by (simp add: decoded_def eval_text eval_parse)
  have cb: "agent_callback ?P (Some record_chunks) ?ev (agent_vars0 []) =
      (None, \<lparr>content = js ''H'', toolsUsed = [], usage = JNull, delivered = 1, caller = [?ev]\<rparr>)"
    by (simp add: agent_callback_def add_content_def add_tool_def set_usage_def call_onChunk_def
          selected_def get_prop_def agent_vars0_def record_chunks_def js_def Let_def)
  have post: "postSse ?P (Inr (stream_of ?body)) ?cb (agent_vars0 []) =
      (Inr [?ev], \<lparr>content = js ''H'', toolsUsed = [], usage = JNull, delivered = 1, caller = [?ev]\<rparr>)"
    by (simp add: postSse_def consume_blocks [OF ok body] blocks emitBlock_eq dec cb)
  have sel: "selected ?P ?ev (js ''tool_start'') (js ''toolName'') = None"
    by (simp add: selected_def get_prop_def js_def)
  have promise: "runStream_promise ?P (Inr (stream_of ?body)) (Some record_chunks) [] =
      (Success \<lparr>result_content = js ''H'', result_toolsUsed = [], toolRounds = 0, totalUsage = JNull\<rparr>, [?ev])"
    by (simp add: runStream_promise_def post sel)
  have first: "activeAgentRequests (snd (runStream_start ?P ?id (JObj []) empty_world)) ?id = Some 0"
    by (simp add: start)
  have run: "runStream ?P (Inr (stream_of ?body)) True (Some record_chunks) ?id (JObj []) []
      (abort_call ?id (Inl abort_error :: js_error + int response)) [] empty_world =
      (Inr (Success \<lparr>result_content = js ''H'', result_toolsUsed = [], toolRounds = 0, totalUsage = JNull\<rparr>, [?ev]),
       \<lparr>activeAgentRequests = Map.empty, aborted = {0}, controllers = 1\<rparr>)"
    by (simp add: runStream_def start runStream_settle_def seen promise abort_call_def abort_def)
  show ?thesis
    using first by (simp add: run settlement_def)
qed

text \<open>
  Claim C2, as amended. \<open>abort\<close> on an identifier that is not registered signals no
  controller and leaves the registry unchanged; the promise it returns is the one of the
  request to the server, so it rejects when that request fails (and with a \<open>URIError\<close>
  when the identifier cannot be encoded).
\<close>

theorem abort_unregistered:
  assumes "activeAgentRequests w requestId = None"
  shows "snd (abort requestId remote w) = w \<and>
         fst (abort requestId remote w) =
           (if lone_surrogate requestId then Inl uri_error else httpRequest remote) \<and>
         (\<not> lone_surrogate requestId \<longrightarrow> fst (abort requestId (Inl e) w) = (Inl e :: js_error + 'n json))"
  using assms by (simp add: abort_def httpRequest_def Let_def)

theorem abort_unregistered_witness:
  "activeAgentRequests empty_world (js ''agent_1'') = None \<and>
   abort (js ''agent_1'')
     (Inr \<lparr>ok = True, status = 200, statusText = js ''OK'', body = None, json_result = Inr (JBool True)\<rparr>)
     empty_world = (Inr (JBool True :: int json), empty_world)"
proof -
  have unknown: "activeAgentRequests empty_world (js ''agent_1'') = None"
    by (simp add: empty_world_def)
  have ascii: "\<not> lone_surrogate (js ''agent_1'')"
    by (simp add: js_def)
  let ?remote = "Inr \<lparr>ok = True, status = 200, statusText = js ''OK'', body = None,
      json_result = Inr (JBool True :: int json)\<rparr>"
  note all = abort_unregistered [OF unknown, where remote = ?remote and e = abort_error]
  from all have world: "snd (abort (js ''agent_1'') ?remote empty_world) = empty_world"
    by (rule conjunct1)
  from all have "fst (abort (js ''agent_1'') ?remote empty_world) =
      (if lone_surrogate (js ''agent_1'') then Inl uri_error else httpRequest ?remote)"
    by (elim conjE)
  with ascii have "fst (abort (js ''agent_1'') ?remote empty_world) = httpRequest ?remote"
    by (simp only: if_False)
  then have answer: "fst (abort (js ''agent_1'') ?remote empty_world) = Inr (JBool True)"
    by (simp add: httpRequest_def)
  from world answer have "abort (js ''agent_1'') ?remote empty_world = (Inr (JBool True), empty_world)"
    by (simp add: prod_eq_iff)
  with unknown show ?thesis
    by (rule conjI)
qed

text \<open>
  Claim C2, as stated, fails: with no request registered and a \<open>fetch\<close> that rejects,
  the promise returned by \<open>abort\<close> rejects with that error.
\<close>

theorem abort_surfaces_remote_failure:
  "activeAgentRequests empty_world (js ''agent_1'') = None \<and>
   fst (abort (js ''agent_1'') (Inl (JsError (js ''TypeError'') (js ''Failed to fetch''))) empty_world) =
     (Inl (JsError (js ''TypeError'') (js ''Failed to fetch'')) :: js_error + int json)"
  by (simp add: abort_def httpRequest_def Let_def empty_world_def js_def)

end
